theory Spec2Isabelle
  imports Main "HOL-Library.AList"
begin

section \<open>The stream client of \<^verbatim>\<open>services/stream/stream.ts\<close>\<close>

text \<open>
  The class \<^verbatim>\<open>Stream\<close> keeps one websocket, a queue of subscription requests, the
  subscription the server was last told about and three sync markers. Every event (socket
  open, close, message, timer, \<^verbatim>\<open>subscribe\<close>, \<^verbatim>\<open>close\<close>) ends in one call of
  \<^verbatim>\<open>#advance\<close>. The private fields become a record that every method takes and
  returns; a method that can throw returns either the record or the error together with
  the record as the throw left it. The calls the class makes on the outside world (the
  three callbacks, the socket, the timer) are appended to the field \<open>calls\<close> in the
  order they happen. A callback returns without calling back into the stream, and time
  is a number of milliseconds handed to each event.
\<close>

subsection \<open>Values on the wire\<close>

type_synonym Streamable = string

text \<open>
  Modelled from the spec: \<^verbatim>\<open>StreamContent\<close> is declared in
  \<^verbatim>\<open>services/stream/index.ts\<close>, which is not among the sources. Section 6 of the
  specification lists what a server message carries: a sync identifier and the encoded
  list of deleted keys (strings), the flag \<^verbatim>\<open>complete\<close> (a boolean) and, under any
  other field, an entity \<^verbatim>\<open>{ id, seq, ...entityFields }\<close> with a numeric id and
  sequence number. Numbers are integers here; \<^verbatim>\<open>null\<close> does not occur.
\<close>

datatype StreamContent =
    CString string
  | CBool bool
  | CEntity int int "(string \<times> string) list"

text \<open>
  A parsed message \<^verbatim>\<open>Record<string, StreamContent>\<close>: its fields in the order of the
  object, each name once.
\<close>

type_synonym msg = "(string \<times> StreamContent) list"

text \<open>JavaScript truthiness of a field that may be \<^verbatim>\<open>undefined\<close> (\<open>None\<close>).\<close>

fun truthy :: "StreamContent option \<Rightarrow> bool" where
  "truthy None = False"
| "truthy (Some (CString s)) = (s \<noteq> [])"
| "truthy (Some (CBool b)) = b"
| "truthy (Some (CEntity i q fs)) = True"

text \<open>
  The operator \<^verbatim>\<open>===\<close>: strings and booleans compare by value, \<^verbatim>\<open>undefined\<close> equals
  only itself, and an object equals only itself. The class compares the sync markers
  only, which stem from different messages (or from the counter), so two objects met
  here are never the same object.
\<close>

fun strict_eq :: "StreamContent option \<Rightarrow> StreamContent option \<Rightarrow> bool" where
  "strict_eq None None = True"
| "strict_eq (Some (CString a)) (Some (CString b)) = (a = b)"
| "strict_eq (Some (CBool a)) (Some (CBool b)) = (a = b)"
| "strict_eq x y = False"

text \<open>\<^verbatim>\<open>k.includes(p)\<close>: \<open>p\<close> occurs in \<open>k\<close> as a contiguous piece.\<close>

fun starts_with :: "string \<Rightarrow> string \<Rightarrow> bool" where
  "starts_with k [] = True"
| "starts_with [] (p # ps) = False"
| "starts_with (c # cs) (p # ps) = (c = p \<and> starts_with cs ps)"

fun str_includes :: "string \<Rightarrow> string \<Rightarrow> bool" where
  "str_includes [] p = (p = [])"
| "str_includes (c # cs) p = (starts_with (c # cs) p \<or> str_includes cs p)"

text \<open>
  lodash \<^verbatim>\<open>trimEnd(string, chars)\<close> removes from the end of the string every character
  that occurs in \<open>chars\<close>, until it meets one that does not: \<open>chars\<close> is a set of
  characters, not a suffix.
\<close>

definition trimEnd :: "string \<Rightarrow> string \<Rightarrow> string" where
  "trimEnd s chars = rev (dropWhile (\<lambda>c. c \<in> set chars) (rev s))"

text \<open>
  \<^verbatim>\<open>Number.prototype.toString\<close> on the counter of syncs: its decimal digits. The counter
  is a natural number here; it stays exact in the source as long as it is below \<open>2^53\<close>.
\<close>

definition digit_char :: "nat \<Rightarrow> char" where
  "digit_char d = ''0123456789'' ! d"

fun toString :: "nat \<Rightarrow> string" where
  "toString n = (if n < 10 then [digit_char n] else toString (n div 10) @ [digit_char (n mod 10)])"

declare toString.simps [simp del]

subsection \<open>The key cache\<close>

text \<open>
  Modelled from the spec: the class \<^verbatim>\<open>KeyCache\<close> of \<^verbatim>\<open>./keyCache\<close> is not among the
  sources. Section 3 of the specification: a "per entity-type-group record of known
  primary keys and the highest observed sequence number" that "exposes known key set,
  max sequence, record upsert(ids, seq), record delete(ids)". A new cache knows no key
  and has seen sequence number 0.
\<close>

record KeyCache =
  kc_keys :: "int set"
  kc_maxSeq :: int

definition new_KeyCache :: KeyCache where
  "new_KeyCache = \<lparr>kc_keys = {}, kc_maxSeq = 0\<rparr>"

definition known :: "KeyCache \<Rightarrow> int set" where
  "known kc = kc_keys kc"

definition maxSeq :: "KeyCache \<Rightarrow> int" where
  "maxSeq kc = kc_maxSeq kc"

definition upsert :: "int list \<Rightarrow> int \<Rightarrow> KeyCache \<Rightarrow> KeyCache" where
  "upsert ids sq kc = kc\<lparr>kc_keys := kc_keys kc \<union> set ids, kc_maxSeq := max (kc_maxSeq kc) sq\<rparr>"

definition delete_msg :: "int list \<Rightarrow> KeyCache \<Rightarrow> KeyCache" where
  "delete_msg ids kc = kc\<lparr>kc_keys := kc_keys kc - set ids\<rparr>"

subsection \<open>Subscriptions\<close>

text \<open>
  \<^verbatim>\<open>interface Subscription { spec: StreamSpec; id?: string }\<close> and its extension with
  a key cache. The label \<^verbatim>\<open>id\<close> is called \<open>sub_id\<close>. A group
  \<^verbatim>\<open>Partial<Record<Streamable, Subscription>>\<close> is an association list in the
  insertion order of the object (group names are words, not array indices, which an
  object would put first); \<^verbatim>\<open>subscribe\<close> is the only producer of groups and never
  stores an \<^verbatim>\<open>undefined\<close> entry, so entries are plain subscriptions.
\<close>

record 'spec Subscription =
  spec :: 'spec
  sub_id :: "string option"

record 'spec SubscriptionWithCache = "'spec Subscription" +
  keyCache :: KeyCache

type_synonym 'spec SubscriptionGroup = "(Streamable \<times> 'spec Subscription) list"

type_synonym 'spec CachedGroup = "(Streamable \<times> 'spec SubscriptionWithCache) list"

definition without_cache :: "'spec CachedGroup \<Rightarrow> 'spec SubscriptionGroup" where
  "without_cache g = map (\<lambda>(k, e). (k, Subscription.truncate e)) g"

text \<open>
  What the class is given from outside. \<^verbatim>\<open>StreamSpec\<close> (with \<^verbatim>\<open>id()\<close>,
  \<^verbatim>\<open>equals\<close>, \<^verbatim>\<open>toWire()\<close>), the table \<^verbatim>\<open>StreamEntityMap\<close> and
  \<^verbatim>\<open>decode_keys\<close> are imported from files that are not among the sources, so they are
  parameters; \<open>has_isLoaded\<close> says whether the optional fourth constructor argument was
  passed. \<open>StreamEntityMap\<close> gives the group that \<^verbatim>\<open>StreamEntityMap[k]\<close> names (the
  property key it is read as), \<open>None\<close> where that is \<^verbatim>\<open>undefined\<close>;
  \<open>decode_keys\<close> returns for every value. The ids of specs are members of the type
  \<^verbatim>\<open>Streamable\<close>, none of which is \<^verbatim>\<open>__proto__\<close> (an assignment to that name
  would replace the prototype of the object instead of storing an entry).
\<close>

record 'spec env =
  spec_id :: "'spec \<Rightarrow> Streamable"
  spec_equals :: "'spec \<Rightarrow> 'spec \<Rightarrow> bool"
  spec_toWire :: "'spec \<Rightarrow> (string \<times> string) list"
  StreamEntityMap :: "string \<Rightarrow> Streamable option"
  decode_keys :: "StreamContent \<Rightarrow> int list"
  has_isLoaded :: bool

text \<open>The payload \<^verbatim>\<open>{ known, subscribe, sync_id }\<close> built by \<^verbatim>\<open>#sendSpec\<close>.\<close>

record Payload =
  p_known :: "(Streamable \<times> int set) list"
  p_subscribe :: "(Streamable \<times> (string \<times> string) list \<times> int) list"
  p_sync_id :: string

datatype call =
    OnUpsert msg
  | OnDelete Streamable "int list"
  | IsLoaded "string list"
  | WsSend Payload
  | WsClose
  | NewWebSocket
  | SetTimeout int

datatype readyState = CONNECTING | OPEN | CLOSING | CLOSED

datatype error = Error string | TypeError

subsection \<open>The private fields\<close>

text \<open>
  \<open>ws\<close> holds the ready state of the socket object, \<open>None\<close> when the field is
  \<^verbatim>\<open>undefined\<close>; \<open>timeout\<close> is a time in milliseconds.
\<close>

record 'spec state =
  ws :: "readyState option"
  retries :: nat
  timeout :: int
  numSyncs :: nat
  closedByClient :: bool
  subs :: "'spec SubscriptionGroup list"
  curSub :: "'spec CachedGroup option"
  syncSent :: "string option"
  syncStarted :: "StreamContent option"
  syncComplete :: "StreamContent option"
  pendingMsg :: "msg list"
  calls :: "call list"

definition backoffs :: "nat list" where
  "backoffs = [0, 1, 2, 4, 8, 10, 10, 10, 15]"

definition call_out :: "call \<Rightarrow> 'spec state \<Rightarrow> 'spec state" where
  "call_out c s = s\<lparr>calls := calls s @ [c]\<rparr>"

subsection \<open>Methods that throw\<close>

text \<open>
  A method either returns (\<open>Inr\<close>, with the fields as it leaves them) or throws
  (\<open>Inl\<close>, with the error and the fields as they are at the throw). Nothing in the
  class catches, so a throw ends the event handler it happens in.
\<close>

type_synonym 'spec outcome = "(error \<times> 'spec state) + 'spec state"

definition and_then :: "'spec outcome \<Rightarrow> ('spec state \<Rightarrow> 'spec outcome) \<Rightarrow> 'spec outcome" where
  "and_then r f = (case r of Inl x \<Rightarrow> Inl x | Inr s \<Rightarrow> f s)"

text \<open>The fields after a method, whether it returned or threw.\<close>

fun final :: "'spec outcome \<Rightarrow> 'spec state" where
  "final (Inl x) = snd x"
| "final (Inr s) = s"

subsection \<open>Reading a property of an object\<close>

text \<open>
  The groups live in plain objects (\<^verbatim>\<open>{}\<close>), and \<^verbatim>\<open>obj[k]\<close> on a plain object finds
  more than the entries stored in it: for the names of the members of
  \<^verbatim>\<open>Object.prototype\<close> it returns that member, a function (for \<^verbatim>\<open>__proto__\<close> the
  prototype itself), which is neither \<^verbatim>\<open>undefined\<close> nor a subscription. So the optional
  chain \<^verbatim>\<open>obj?.[k]?.keyCache.f(...)\<close> does nothing when \<^verbatim>\<open>obj[k]\<close> is
  \<^verbatim>\<open>undefined\<close>, calls \<open>f\<close> on the cache of an entry, and throws a \<^verbatim>\<open>TypeError\<close> for
  an inherited member, whose \<^verbatim>\<open>keyCache\<close> is \<^verbatim>\<open>undefined\<close>.
\<close>

definition object_prototype_names :: "string list" where
  "object_prototype_names =
     [''constructor'', ''__defineGetter__'', ''__defineSetter__'', ''hasOwnProperty'',
      ''__lookupGetter__'', ''__lookupSetter__'', ''isPrototypeOf'', ''propertyIsEnumerable'',
      ''toString'', ''valueOf'', ''__proto__'', ''toLocaleString'']"

datatype 'a property = Undefined | Inherited | Own 'a

definition property_of :: "(string \<times> 'a) list \<Rightarrow> string \<Rightarrow> 'a property" where
  "property_of obj k =
     (case map_of obj k of
        Some v \<Rightarrow> Own v
      | None \<Rightarrow> if k \<in> set object_prototype_names then Inherited else Undefined)"

subsection \<open>\<^verbatim>\<open>#handleSubFinish\<close>\<close>

text \<open>
  \<^verbatim>\<open>this.#isLoaded?.(map(spec, (s) => s?.id || '').filter((i) => !!i))\<close>; lodash
  \<^verbatim>\<open>map\<close> of \<^verbatim>\<open>undefined\<close> is the empty array.
\<close>

definition labels :: "(Streamable \<times> ('spec, 'more) Subscription_scheme) list \<Rightarrow> string list" where
  "labels g = filter (\<lambda>i. i \<noteq> [])
     (map (\<lambda>(k, e). case sub_id e of None \<Rightarrow> [] | Some i \<Rightarrow> i) g)"

definition handleSubFinish ::
  "'spec env \<Rightarrow> (Streamable \<times> ('spec, 'more) Subscription_scheme) list option \<Rightarrow>
     'spec state \<Rightarrow> 'spec state" where
  "handleSubFinish env g s =
     (if has_isLoaded env
      then call_out (IsLoaded (case g of None \<Rightarrow> [] | Some sp \<Rightarrow> labels sp)) s
      else s)"

subsection \<open>\<^verbatim>\<open>#shouldSkip\<close>\<close>

text \<open>
  The loop \<^verbatim>\<open>forEach(newSub, (val, k) => ...)\<close> with the flag \<^verbatim>\<open>skip\<close>; it visits
  every entry, also after the flag is down. The test
  \<^verbatim>\<open>!this.#curSub?.[k]?.spec.equals(val?.spec)\<close> throws a \<^verbatim>\<open>TypeError\<close> when \<open>k\<close> is
  the name of an inherited member and not a group of the active subscription.
\<close>

fun shouldSkip_loop ::
  "'spec env \<Rightarrow> 'spec CachedGroup \<Rightarrow> 'spec SubscriptionGroup \<Rightarrow> bool \<Rightarrow> error + bool" where
  "shouldSkip_loop env cur [] skip = Inr skip"
| "shouldSkip_loop env cur (kval # rest) skip =
     (case property_of cur (fst kval) of
        Undefined \<Rightarrow> shouldSkip_loop env cur rest False
      | Inherited \<Rightarrow> Inl TypeError
      | Own c \<Rightarrow>
          shouldSkip_loop env cur rest
            (if spec_equals env (spec c) (spec (snd kval)) then skip else False))"

definition shouldSkip :: "'spec env \<Rightarrow> 'spec state \<Rightarrow> 'spec SubscriptionGroup \<Rightarrow> error + bool" where
  "shouldSkip env s newSub =
     (case curSub s of
        None \<Rightarrow> Inr False
      | Some cur \<Rightarrow> shouldSkip_loop env cur newSub True)"

subsection \<open>\<^verbatim>\<open>#sendSpec\<close>\<close>

text \<open>The object spread \<^verbatim>\<open>{ ...a, ...b }\<close>: the entries of \<open>a\<close>, then those of \<open>b\<close> assigned in turn.\<close>

definition spread :: "('k \<times> 'v) list \<Rightarrow> ('k \<times> 'v) list \<Rightarrow> ('k \<times> 'v) list" where
  "spread a b = fold (\<lambda>(k, v). AList.update k v) b a"

text \<open>
  One round of the \<^verbatim>\<open>reduce\<close> over the merged subscription. In
  \<^verbatim>\<open>curSpec?.keyCache || new KeyCache()\<close> an inherited member has no \<^verbatim>\<open>keyCache\<close>, so
  it gives a new cache like a missing entry does, and nothing throws.
\<close>

definition sendSpec_step ::
  "'spec env \<Rightarrow> 'spec CachedGroup option \<Rightarrow> Streamable \<times> 'spec Subscription \<Rightarrow>
     'spec CachedGroup \<times> Payload \<Rightarrow> 'spec CachedGroup \<times> Payload" where
  "sendSpec_step env cur kent acc =
     (let ent = snd kent;
          newSpecWithCache = fst acc;
          payload = snd acc;
          k = spec_id env (spec ent);
          curSpec = (case cur of None \<Rightarrow> None | Some c \<Rightarrow> map_of c k);
          kc = (case curSpec of None \<Rightarrow> new_KeyCache | Some c \<Rightarrow> keyCache c)
      in (AList.update k (Subscription.extend ent (SubscriptionWithCache.fields kc)) newSpecWithCache,
          payload\<lparr>p_known := AList.update k (known kc) (p_known payload),
                   p_subscribe := AList.update k (spec_toWire env (spec ent), maxSeq kc)
                                    (p_subscribe payload)\<rparr>))"

definition sendSpec :: "'spec env \<Rightarrow> 'spec SubscriptionGroup \<Rightarrow> 'spec state \<Rightarrow> 'spec state" where
  "sendSpec env newSub s =
     (let n = numSyncs s + 1;
          sync_id = toString n;
          wholeSub = (case curSub s of
                        None \<Rightarrow> newSub
                      | Some c \<Rightarrow> spread (without_cache c) newSub);
          res = fold (sendSpec_step env (curSub s)) wholeSub
                  ([], \<lparr>p_known = [], p_subscribe = [], p_sync_id = sync_id\<rparr>)
      in call_out (WsSend (snd res))
           (s\<lparr>numSyncs := n, curSub := Some (fst res)\<rparr>)
           \<lparr>syncSent := Some sync_id\<rparr>)"

text \<open>
  The payload that tells the server about a subscription as it stands: for each group
  the known keys of its cache, and the wire form of its spec with the highest sequence
  number of the cache as \<^verbatim>\<open>since\<close>.
\<close>

definition payload_of :: "'spec env \<Rightarrow> string \<Rightarrow> 'spec CachedGroup \<Rightarrow> Payload" where
  "payload_of env sid g =
     \<lparr>p_known = map (\<lambda>(k, e). (k, known (keyCache e))) g,
      p_subscribe = map (\<lambda>(k, e). (k, spec_toWire env (spec e), maxSeq (keyCache e))) g,
      p_sync_id = sid\<rparr>"

subsection \<open>\<^verbatim>\<open>#processPending\<close>\<close>

text \<open>
  \<^verbatim>\<open>this.#curSub?.[g]?.keyCache.f(...)\<close>: nothing happens when there is no active
  subscription or it has nothing under \<open>g\<close>; the cache of group \<open>g\<close> is changed in place
  when the active subscription has that group; and the call throws when \<open>g\<close> names an
  inherited member. Each cache is held by one entry of the active subscription only, so
  the in-place change is the change of that entry.
\<close>

definition on_keyCache :: "Streamable \<Rightarrow> (KeyCache \<Rightarrow> KeyCache) \<Rightarrow> 'spec state \<Rightarrow> 'spec outcome" where
  "on_keyCache g f s =
     (case curSub s of
        None \<Rightarrow> Inr s
      | Some cur \<Rightarrow>
          (case property_of cur g of
             Undefined \<Rightarrow> Inr s
           | Inherited \<Rightarrow> Inl (TypeError, s)
           | Own e \<Rightarrow> Inr (s\<lparr>curSub := Some (AList.update g (e\<lparr>keyCache := f (keyCache e)\<rparr>) cur)\<rparr>)))"

text \<open>
  The body of \<^verbatim>\<open>forEach(msg, (val, k) => ...)\<close>. The delete callback and the upsert
  callback come after the call on the cache, so a throw there leaves them out. In the
  upsert branch \<^verbatim>\<open>StreamEntityMap[k]\<close> is \<^verbatim>\<open>undefined\<close> for a tag without an entry, and
  the property read is the one named \<^verbatim>\<open>undefined\<close>. The source passes \<^verbatim>\<open>val.id\<close> and
  \<^verbatim>\<open>val.seq\<close> to the cache; a string or a boolean under an entity tag is outside the
  wire format and would hand \<^verbatim>\<open>undefined\<close> to the key cache, about which nothing is
  known, so the cache is left as it is there.
\<close>

definition process_field ::
  "'spec env \<Rightarrow> msg \<Rightarrow> string \<times> StreamContent \<Rightarrow> 'spec state \<Rightarrow> 'spec outcome" where
  "process_field env m kv s =
     (let k = fst kv; val = snd kv in
      if str_includes k ''_deleted'' then
        (let stream_key = trimEnd k ''_deleted'';
             deleted_keys = decode_keys env val
         in and_then (on_keyCache stream_key (delete_msg deleted_keys) s)
              (\<lambda>t. Inr (call_out (OnDelete stream_key deleted_keys) t)))
      else
        and_then
          (on_keyCache
             (case StreamEntityMap env k of None \<Rightarrow> ''undefined'' | Some g \<Rightarrow> g)
             (case val of CEntity i q fs \<Rightarrow> upsert [i] q | _ \<Rightarrow> (\<lambda>kc. kc))
             s)
          (\<lambda>t. Inr (call_out (OnUpsert m) t)))"

text \<open>
  \<^verbatim>\<open>forEach(msg, ...)\<close> over the fields of the message in turn; a throw ends it. (lodash
  walks an object as an array only when it has a numeric \<^verbatim>\<open>length\<close>, which no value on
  the wire is.)
\<close>

fun process_fields ::
  "'spec env \<Rightarrow> msg \<Rightarrow> (string \<times> StreamContent) list \<Rightarrow> 'spec state \<Rightarrow> 'spec outcome" where
  "process_fields env m [] s = Inr s"
| "process_fields env m (kv # fs) s =
     (case process_field env m kv s of
        Inl x \<Rightarrow> Inl x
      | Inr t \<Rightarrow> process_fields env m fs t)"

text \<open>One round of the \<^verbatim>\<open>while\<close> loop, after the message was shifted off the queue.\<close>

definition process_msg :: "'spec env \<Rightarrow> msg \<Rightarrow> 'spec state \<Rightarrow> 'spec outcome" where
  "process_msg env m s =
     (if truthy (map_of m ''sync_id'') then
        (if \<not> truthy (map_of m ''complete'')
         then Inr (s\<lparr>syncStarted := map_of m ''sync_id''\<rparr>)
         else Inr ((handleSubFinish env (curSub s) s)\<lparr>syncComplete := map_of m ''sync_id''\<rparr>))
      else if \<not> strict_eq (map_option CString (syncSent s)) (syncStarted s) then Inr s
      else process_fields env m m s)"

fun processPending_loop :: "'spec env \<Rightarrow> msg list \<Rightarrow> 'spec state \<Rightarrow> 'spec outcome" where
  "processPending_loop env [] s = Inr s"
| "processPending_loop env (m # rest) s =
     (case process_msg env m (s\<lparr>pendingMsg := rest\<rparr>) of
        Inl x \<Rightarrow> Inl x
      | Inr t \<Rightarrow> processPending_loop env rest t)"

definition processPending :: "'spec env \<Rightarrow> 'spec state \<Rightarrow> 'spec outcome" where
  "processPending env s = processPending_loop env (pendingMsg s) s"

subsection \<open>\<^verbatim>\<open>#processSubscription\<close>\<close>

text \<open>
  \<^verbatim>\<open>while ((spec = this.#subs.shift())) { ... }\<close>, the queue passed along. A throw in
  \<^verbatim>\<open>#shouldSkip\<close> comes after the entry was shifted off the queue.
\<close>

fun processSubscription_loop ::
  "'spec env \<Rightarrow> 'spec SubscriptionGroup list \<Rightarrow> 'spec state \<Rightarrow> 'spec outcome" where
  "processSubscription_loop env [] s = Inr s"
| "processSubscription_loop env (sp # rest) s =
     (case shouldSkip env s sp of
        Inl e \<Rightarrow> Inl (e, s\<lparr>subs := rest\<rparr>)
      | Inr skip \<Rightarrow>
          if skip
          then processSubscription_loop env rest (handleSubFinish env (Some sp) (s\<lparr>subs := rest\<rparr>))
          else Inr (sendSpec env sp (s\<lparr>subs := rest\<rparr>)))"

definition processSubscription :: "'spec env \<Rightarrow> 'spec state \<Rightarrow> 'spec outcome" where
  "processSubscription env s =
     (if curSub s = None \<and> subs s = [] then Inr s
      else if syncSent s = None \<or> syncSent s = Some [] then
        (case curSub s of
           Some cur \<Rightarrow>
             if \<not> truthy (syncComplete s) \<or> \<not> strict_eq (syncStarted s) (syncComplete s)
             then Inr (sendSpec env (without_cache cur) s)
             else (case subs s of
                     [] \<Rightarrow> Inr s
                   | sp # rest \<Rightarrow> Inr (sendSpec env sp (s\<lparr>subs := rest\<rparr>)))
         | None \<Rightarrow>
             (case subs s of
                [] \<Rightarrow> Inr s
              | sp # rest \<Rightarrow> Inr (sendSpec env sp (s\<lparr>subs := rest\<rparr>))))
      else if \<not> strict_eq (syncComplete s) (map_option CString (syncSent s)) then Inr s
      else processSubscription_loop env (subs s) s)"

subsection \<open>\<^verbatim>\<open>#connect\<close>, \<^verbatim>\<open>#advance\<close> and the public methods\<close>

text \<open>\<^verbatim>\<open>new WebSocket(url)\<close>: a socket in state \<^verbatim>\<open>CONNECTING\<close> with the four handlers below.\<close>

definition connect :: "'spec state \<Rightarrow> 'spec state" where
  "connect s = call_out NewWebSocket (s\<lparr>ws := Some CONNECTING\<rparr>)"

text \<open>\<open>now\<close> is what \<^verbatim>\<open>dayjs()\<close> returns, in milliseconds.\<close>

definition advance :: "'spec env \<Rightarrow> int \<Rightarrow> 'spec state \<Rightarrow> 'spec outcome" where
  "advance env now s =
     (if closedByClient s then
        (case ws s of
           None \<Rightarrow> Inr s
         | Some r \<Rightarrow>
             if r \<noteq> CLOSED \<and> r \<noteq> CLOSING
             then Inr (call_out WsClose (s\<lparr>ws := Some CLOSING\<rparr>))
             else Inr s)
      else if ws s = Some CLOSED \<and> now < timeout s then Inr s
      else
        (let s1 = (if ws s = Some CLOSED then s\<lparr>ws := None\<rparr> else s);
             s2 = (if ws s1 = None then connect s1 else s1)
         in if ws s2 \<noteq> Some OPEN then Inr s2
            else and_then (processPending env s2) (processSubscription env)))"

definition ws_onopen :: "'spec env \<Rightarrow> int \<Rightarrow> 'spec state \<Rightarrow> 'spec outcome" where
  "ws_onopen env now s = advance env now (s\<lparr>retries := 0\<rparr>)"

text \<open>
  \<^verbatim>\<open>ws.onclose\<close>: \<^verbatim>\<open>backoffs[this.#retries]\<close> is \<^verbatim>\<open>undefined\<close> past the end of the
  table and the handler throws, after it has cleared \<^verbatim>\<open>#syncSent\<close>.
\<close>

definition ws_onclose :: "int \<Rightarrow> 'spec state \<Rightarrow> 'spec outcome" where
  "ws_onclose now s =
     (let s1 = s\<lparr>syncSent := None\<rparr> in
      if \<not> retries s1 < length backoffs
      then Inl (Error ''Websocket cannot reconnect!'', s1)
      else
        (let backoff = int (backoffs ! retries s1) in
         Inr (call_out (SetTimeout (backoff * 1000))
                (s1\<lparr>timeout := now + backoff * 1000, retries := retries s1 + 1\<rparr>))))"

definition ws_onmessage :: "'spec env \<Rightarrow> int \<Rightarrow> msg \<Rightarrow> 'spec state \<Rightarrow> 'spec outcome" where
  "ws_onmessage env now m s = advance env now (s\<lparr>pendingMsg := pendingMsg s @ [m]\<rparr>)"

definition subscribe ::
  "'spec env \<Rightarrow> int \<Rightarrow> 'spec \<Rightarrow> string option \<Rightarrow> 'spec state \<Rightarrow> 'spec outcome" where
  "subscribe env now sp i s =
     advance env now (s\<lparr>subs := subs s @ [[(spec_id env sp, \<lparr>spec = sp, sub_id = i\<rparr>)]]\<rparr>)"

definition close :: "'spec env \<Rightarrow> int \<Rightarrow> 'spec state \<Rightarrow> 'spec outcome" where
  "close env now s = advance env now (s\<lparr>closedByClient := True\<rparr>)"

text \<open>
  The field initialisers and the constructor, which ends in \<^verbatim>\<open>this.#advance()\<close>. With
  nothing pending and nothing queued that pass opens the socket and returns.
\<close>

definition initial :: "int \<Rightarrow> 'spec state" where
  "initial now =
     \<lparr>ws = None, retries = 0, timeout = now, numSyncs = 0, closedByClient = False,
      subs = [], curSub = None, syncSent = None, syncStarted = None, syncComplete = None,
      pendingMsg = [], calls = []\<rparr>"

definition new_Stream :: "'spec env \<Rightarrow> int \<Rightarrow> 'spec state" where
  "new_Stream env now = final (advance env now (initial now))"

subsection \<open>Events\<close>

text \<open>
  What can happen to a stream, each with the time it happens at. The browser sets the
  ready state of the socket before it calls \<^verbatim>\<open>onopen\<close> or \<^verbatim>\<open>onclose\<close>;
  \<^verbatim>\<open>onerror\<close> only logs; the timer set by \<^verbatim>\<open>onclose\<close> calls \<^verbatim>\<open>#advance\<close>. A
  message arrives parsed. A run is followed up to the first handler that throws.
\<close>

datatype 'spec event =
    SocketOpened
  | SocketErrored
  | SocketClosed
  | SocketMessage msg
  | TimerFired
  | Subscribe 'spec "string option"
  | Close

fun handle :: "'spec env \<Rightarrow> int \<Rightarrow> 'spec event \<Rightarrow> 'spec state \<Rightarrow> 'spec outcome" where
  "handle env now SocketOpened s = ws_onopen env now (s\<lparr>ws := Some OPEN\<rparr>)"
| "handle env now SocketErrored s = Inr s"
| "handle env now SocketClosed s = ws_onclose now (s\<lparr>ws := Some CLOSED\<rparr>)"
| "handle env now (SocketMessage m) s = ws_onmessage env now m s"
| "handle env now TimerFired s = advance env now s"
| "handle env now (Subscribe sp i) s = subscribe env now sp i s"
| "handle env now Close s = close env now s"

fun run :: "'spec env \<Rightarrow> (int \<times> 'spec event) list \<Rightarrow> 'spec state \<Rightarrow> 'spec outcome" where
  "run env [] s = Inr s"
| "run env (te # es) s =
     (case handle env (fst te) (snd te) s of
        Inl x \<Rightarrow> Inl x
      | Inr s' \<Rightarrow> run env es s')"

subsection \<open>Sends and processed messages in sequence\<close>

text \<open>
  The two things that touch the sync markers: a send (\<^verbatim>\<open>#sendSpec\<close>) and one round of
  the dispatcher on one message. A round that throws ends its handler; the stream then
  goes on from the fields as the throw left them.
\<close>

datatype 'spec action = Send "'spec SubscriptionGroup" | Process msg

fun act :: "'spec env \<Rightarrow> 'spec action \<Rightarrow> 'spec state \<Rightarrow> 'spec state" where
  "act env (Send g) s = sendSpec env g s"
| "act env (Process m) s = final (process_msg env m s)"

definition acts :: "'spec env \<Rightarrow> 'spec action list \<Rightarrow> 'spec state \<Rightarrow> 'spec state" where
  "acts env xs s = fold (act env) xs s"

text \<open>
  A marker that starts, or completes, the catch-up of the sync identifier \<open>v\<close>, as the
  dispatcher tells them apart.
\<close>

definition start_marker :: "StreamContent \<Rightarrow> msg \<Rightarrow> bool" where
  "start_marker v m =
     (map_of m ''sync_id'' = Some v \<and> truthy (Some v) \<and> \<not> truthy (map_of m ''complete''))"

definition complete_marker :: "StreamContent \<Rightarrow> msg \<Rightarrow> bool" where
  "complete_marker v m =
     (map_of m ''sync_id'' = Some v \<and> truthy (Some v) \<and> truthy (map_of m ''complete''))"

text \<open>
  What a server that keeps to the protocol guarantees for \<open>v\<close>: every completion marker
  for \<open>v\<close> in the sequence comes after a start marker for \<open>v\<close>. Read from the front,
  the first marker for \<open>v\<close>, if there is one, is a start marker.
\<close>

fun starts_come_first :: "StreamContent \<Rightarrow> 'spec action list \<Rightarrow> bool" where
  "starts_come_first v [] = True"
| "starts_come_first v (Send g # xs) = starts_come_first v xs"
| "starts_come_first v (Process m # xs) =
     (if start_marker v m then True
      else if complete_marker v m then False
      else starts_come_first v xs)"

subsection \<open>Disconnects in a row\<close>

text \<open>
  \<open>n\<close> connection attempts that each end in a close with no open in between: the close
  handler runs, the timer it set fires when the backoff has elapsed, and \<^verbatim>\<open>#advance\<close>
  opens the next socket, which closes in turn.
\<close>

fun disconnects :: "'spec env \<Rightarrow> nat \<Rightarrow> int \<Rightarrow> 'spec state \<Rightarrow> 'spec outcome" where
  "disconnects env 0 now s = Inr s"
| "disconnects env (Suc n) now s =
     (case handle env now SocketClosed s of
        Inl x \<Rightarrow> Inl x
      | Inr s' \<Rightarrow>
          (case handle env (timeout s') TimerFired s' of
             Inl x \<Rightarrow> Inl x
           | Inr s'' \<Rightarrow> disconnects env n (timeout s') s''))"

subsection \<open>Reading the calls\<close>

text \<open>The label lists passed to the loaded callback, and the payloads sent, in order.\<close>

fun loaded_calls :: "call list \<Rightarrow> string list list" where
  "loaded_calls [] = []"
| "loaded_calls (IsLoaded ls # cs) = ls # loaded_calls cs"
| "loaded_calls (c # cs) = loaded_calls cs"

fun sends :: "call list \<Rightarrow> Payload list" where
  "sends [] = []"
| "sends (WsSend p # cs) = p # sends cs"
| "sends (c # cs) = sends cs"

text \<open>The delays passed to \<^verbatim>\<open>setTimeout\<close>, in milliseconds, in order.\<close>

fun timeouts :: "call list \<Rightarrow> int list" where
  "timeouts [] = []"
| "timeouts (SetTimeout d # cs) = d # timeouts cs"
| "timeouts (c # cs) = timeouts cs"

text \<open>The messages passed to the upsert callback and the arguments of the delete callback.\<close>

fun upsert_calls :: "call list \<Rightarrow> msg list" where
  "upsert_calls [] = []"
| "upsert_calls (OnUpsert m # cs) = m # upsert_calls cs"
| "upsert_calls (c # cs) = upsert_calls cs"

fun delete_calls :: "call list \<Rightarrow> (Streamable \<times> int list) list" where
  "delete_calls [] = []"
| "delete_calls (OnDelete g ks # cs) = (g, ks) # delete_calls cs"
| "delete_calls (c # cs) = delete_calls cs"

text \<open>
  The second state has the calls of the first and, after them, calls with \<open>n\<close> sends, and
  its counter of syncs is \<open>n\<close> higher.
\<close>

definition emits :: "nat \<Rightarrow> 'spec state \<Rightarrow> 'spec state \<Rightarrow> bool" where
  "emits n s s' =
     (\<exists>cs. calls s' = calls s @ cs \<and> length (sends cs) = n \<and> numSyncs s' = numSyncs s + n)"

text \<open>
  For one field of a message: the group whose cache the loop reaches for, whether
  reaching for it throws, and the change of the cache and the callback the loop makes
  when it does not.
\<close>

definition field_group :: "'spec env \<Rightarrow> string \<times> StreamContent \<Rightarrow> Streamable" where
  "field_group env kv =
     (if str_includes (fst kv) ''_deleted'' then trimEnd (fst kv) ''_deleted''
      else (case StreamEntityMap env (fst kv) of None \<Rightarrow> ''undefined'' | Some g \<Rightarrow> g))"

definition lookup_throws :: "'spec state \<Rightarrow> Streamable \<Rightarrow> bool" where
  "lookup_throws s g =
     (case curSub s of None \<Rightarrow> False | Some cur \<Rightarrow> property_of cur g = Inherited)"

definition field_throws :: "'spec env \<Rightarrow> 'spec state \<Rightarrow> string \<times> StreamContent \<Rightarrow> bool" where
  "field_throws env s kv = lookup_throws s (field_group env kv)"

definition field_change :: "'spec env \<Rightarrow> string \<times> StreamContent \<Rightarrow> KeyCache \<Rightarrow> KeyCache" where
  "field_change env kv =
     (if str_includes (fst kv) ''_deleted'' then delete_msg (decode_keys env (snd kv))
      else (case snd kv of CEntity i q fs \<Rightarrow> upsert [i] q | _ \<Rightarrow> (\<lambda>kc. kc)))"

definition field_call :: "'spec env \<Rightarrow> msg \<Rightarrow> string \<times> StreamContent \<Rightarrow> call" where
  "field_call env m kv =
     (if str_includes (fst kv) ''_deleted''
      then OnDelete (trimEnd (fst kv) ''_deleted'') (decode_keys env (snd kv))
      else OnUpsert m)"

text \<open>
  The key cache the active subscription holds for a group, if it has that group, and
  the fields after a change \<open>f\<close> of that cache.
\<close>

definition cache_of :: "Streamable \<Rightarrow> 'spec state \<Rightarrow> KeyCache option" where
  "cache_of g s = (case curSub s of None \<Rightarrow> None | Some cur \<Rightarrow> map_option keyCache (map_of cur g))"

definition with_keyCache :: "Streamable \<Rightarrow> (KeyCache \<Rightarrow> KeyCache) \<Rightarrow> 'spec state \<Rightarrow> 'spec state" where
  "with_keyCache g f s =
     (case curSub s of
        None \<Rightarrow> s
      | Some cur \<Rightarrow>
          (case map_of cur g of
             None \<Rightarrow> s
           | Some e \<Rightarrow> s\<lparr>curSub := Some (AList.update g (e\<lparr>keyCache := f (keyCache e)\<rparr>) cur)\<rparr>))"

text \<open>
  Two states that differ at most in the caches and the calls: every other field agrees,
  and the active subscription has the same groups in both.
\<close>

definition same_but_caches :: "'spec state \<Rightarrow> 'spec state \<Rightarrow> bool" where
  "same_but_caches s t =
     (ws t = ws s \<and> retries t = retries s \<and> timeout t = timeout s \<and>
      numSyncs t = numSyncs s \<and> closedByClient t = closedByClient s \<and> subs t = subs s \<and>
      syncSent t = syncSent s \<and> syncStarted t = syncStarted s \<and>
      syncComplete t = syncComplete s \<and> pendingMsg t = pendingMsg s \<and>
      map_option (map fst) (curSub t) = map_option (map fst) (curSub s))"

subsection \<open>Concrete inputs\<close>

text \<open>
  A stream whose specs are pairs of a group name and a filter, equal when both agree,
  with a loaded callback. Its entity table sends the tag \<open>trials\<close> to the group
  \<open>trials\<close>, and \<open>3-4\<close> stands for the encoded key list \<open>[3, 4]\<close>.
\<close>

definition trials_env :: "(string \<times> string) env" where
  "trials_env =
     \<lparr>spec_id = fst, spec_equals = (=), spec_toWire = (\<lambda>sp. [(''filter'', snd sp)]),
      StreamEntityMap = map_of [(''trials'', ''trials'')],
      decode_keys = (\<lambda>v. if v = CString ''3-4'' then [3, 4] else []),
      has_isLoaded = True\<rparr>"

text \<open>The socket opened and one subscription was sent as sync 1; no marker has arrived.\<close>

definition sent_state :: "(string \<times> string) state" where
  "sent_state =
     final (run trials_env
       [(1, SocketOpened), (2, Subscribe (''trials'', ''a'') (Some ''L1''))]
       (new_Stream trials_env 0))"

text \<open>The same, after both markers of sync 1 have arrived.\<close>

definition loaded_state :: "(string \<times> string) state" where
  "loaded_state =
     final (run trials_env
       [(1, SocketOpened), (2, Subscribe (''trials'', ''a'') (Some ''L1'')),
        (3, SocketMessage [(''sync_id'', CString ''1''), (''complete'', CBool False)]),
        (4, SocketMessage [(''sync_id'', CString ''1''), (''complete'', CBool True)])]
       (new_Stream trials_env 0))"

text \<open>
  After sync 1 has completed, a subscription with another filter was sent as sync 2; no
  marker for sync 2 has arrived.
\<close>

definition unfinished_state :: "(string \<times> string) state" where
  "unfinished_state =
     final (run trials_env
       [(5, Subscribe (''trials'', ''b'') (Some ''L2''))]
       loaded_state)"

text \<open>
  The fields of \<open>loaded_state\<close> with three requests queued: the spec that is active,
  then two others.
\<close>

definition queued_state :: "(string \<times> string) state" where
  "queued_state = loaded_state\<lparr>subs :=
     [[(''trials'', \<lparr>spec = (''trials'', ''a''), sub_id = Some ''L2''\<rparr>)],
      [(''trials'', \<lparr>spec = (''trials'', ''b''), sub_id = Some ''L3''\<rparr>)],
      [(''trials'', \<lparr>spec = (''trials'', ''c''), sub_id = Some ''L4''\<rparr>)]]\<rparr>"

text \<open>
  The fields of \<open>loaded_state\<close> with the counter of syncs at 7: sync 7 is in flight,
  started and completed.
\<close>

definition synced7_state :: "(string \<times> string) state" where
  "synced7_state = loaded_state\<lparr>numSyncs := 7, syncSent := Some ''7'',
     syncStarted := Some (CString ''7''), syncComplete := Some (CString ''7'')\<rparr>"

text \<open>
  Messages for \<open>loaded_state\<close>: two entities and a delete for the group \<open>trials\<close>, and the
  same with the delete addressed to \<open>toString\<close>, a name every object inherits.
\<close>

definition delta_msg :: msg where
  "delta_msg =
     [(''trials'', CEntity 3 10 []), (''trials_deleted'', CString ''3-4''),
      (''projects'', CEntity 1 11 [])]"

section \<open>Properties\<close>

subsection \<open>What each method leaves alone\<close>

lemma call_out_fields [simp]:
  "calls (call_out c s) = calls s @ [c]"
  "syncSent (call_out c s) = syncSent s"
  "syncStarted (call_out c s) = syncStarted s"
  "syncComplete (call_out c s) = syncComplete s"
  "numSyncs (call_out c s) = numSyncs s"
  "subs (call_out c s) = subs s"
  "pendingMsg (call_out c s) = pendingMsg s"
  "curSub (call_out c s) = curSub s"
  "ws (call_out c s) = ws s"
  "retries (call_out c s) = retries s"
  "timeout (call_out c s) = timeout s"
  "closedByClient (call_out c s) = closedByClient s"
  by (simp_all add: call_out_def)

lemma with_keyCache_fields [simp]:
  "calls (with_keyCache g f s) = calls s"
  "syncSent (with_keyCache g f s) = syncSent s"
  "syncStarted (with_keyCache g f s) = syncStarted s"
  "syncComplete (with_keyCache g f s) = syncComplete s"
  "numSyncs (with_keyCache g f s) = numSyncs s"
  "subs (with_keyCache g f s) = subs s"
  "pendingMsg (with_keyCache g f s) = pendingMsg s"
  "ws (with_keyCache g f s) = ws s"
  "retries (with_keyCache g f s) = retries s"
  "timeout (with_keyCache g f s) = timeout s"
  "closedByClient (with_keyCache g f s) = closedByClient s"
  by (simp_all add: with_keyCache_def split: option.splits)

text \<open>A change of a cache neither adds nor removes a group.\<close>

lemma map_fst_update:
  "map_of al k = Some e \<Longrightarrow> map fst (AList.update k v al) = map fst al"
  by (induction al) (auto split: if_splits)

lemma keys_with_keyCache:
  "map_option (map fst) (curSub (with_keyCache g f s)) = map_option (map fst) (curSub s)"
  by (simp add: with_keyCache_def map_fst_update split: option.splits)

lemma map_of_None_iff_keys: "map_of al k = None \<longleftrightarrow> k \<notin> set (map fst al)"
  by (simp add: map_of_eq_None_iff)

lemma lookup_throws_keys:
  assumes "map_option (map fst) (curSub t) = map_option (map fst) (curSub s)"
  shows "lookup_throws t g = lookup_throws s g"
proof (cases "curSub s")
  case None
  with assms show ?thesis by (simp add: lookup_throws_def)
next
  case (Some cur)
  with assms obtain cur' where t: "curSub t = Some cur'" and k: "map fst cur' = map fst cur"
    by (cases "curSub t") simp_all
  have "map_of cur' g = None \<longleftrightarrow> map_of cur g = None"
    using k by (simp add: map_of_None_iff_keys)
  then show ?thesis
    using Some t by (auto simp: lookup_throws_def property_of_def split: option.splits)
qed

text \<open>The call on a cache: it throws, or it is the change of that cache.\<close>

lemma on_keyCache_cases:
  "on_keyCache g f s =
     (if lookup_throws s g then Inl (TypeError, s) else Inr (with_keyCache g f s))"
  by (simp add: on_keyCache_def lookup_throws_def with_keyCache_def property_of_def
      split: option.splits)

lemma process_field_cases:
  "process_field env m kv s =
     (if field_throws env s kv then Inl (TypeError, s)
      else Inr (call_out (field_call env m kv)
                 (with_keyCache (field_group env kv) (field_change env kv) s)))"
  by (simp add: process_field_def on_keyCache_cases and_then_def field_throws_def
      field_group_def field_call_def field_change_def Let_def)

lemma same_but_caches_refl: "same_but_caches s s"
  by (simp add: same_but_caches_def)

lemma same_but_caches_trans:
  "same_but_caches s t \<Longrightarrow> same_but_caches t u \<Longrightarrow> same_but_caches s u"
  by (simp add: same_but_caches_def)

lemma same_but_caches_field:
  "same_but_caches s (call_out c (with_keyCache g f s))"
  by (simp add: same_but_caches_def keys_with_keyCache)

lemma field_throws_same:
  "same_but_caches s t \<Longrightarrow> field_throws env t kv = field_throws env s kv"
  unfolding field_throws_def by (rule lookup_throws_keys) (simp add: same_but_caches_def)

lemma process_field_keeps: "same_but_caches s (final (process_field env m kv s))"
  by (simp add: process_field_cases same_but_caches_refl same_but_caches_field)

lemma process_fields_keeps: "same_but_caches s (final (process_fields env m fs s))"
proof (induction fs arbitrary: s)
  case Nil
  show ?case by (simp add: same_but_caches_refl)
next
  case (Cons kv fs)
  show ?case
  proof (cases "process_field env m kv s")
    case (Inl x)
    then show ?thesis using process_field_keeps [of s env m kv] by simp
  next
    case (Inr t)
    then have "same_but_caches s t" using process_field_keeps [of s env m kv] by simp
    then show ?thesis using Inr Cons [of t] by (simp add: same_but_caches_trans)
  qed
qed

text \<open>
  The callbacks of one message: those of its fields in turn, up to the first field at
  which the call on the cache throws.
\<close>

lemma calls_process_fields:
  "calls (final (process_fields env m fs s)) =
     calls s @ map (field_call env m) (takeWhile (\<lambda>kv. \<not> field_throws env s kv) fs)"
proof (induction fs arbitrary: s)
  case Nil
  show ?case by simp
next
  case (Cons kv fs)
  show ?case
  proof (cases "field_throws env s kv")
    case True
    then show ?thesis by (simp add: process_field_cases)
  next
    case False
    let ?t = "call_out (field_call env m kv)
                (with_keyCache (field_group env kv) (field_change env kv) s)"
    have "field_throws env ?t = field_throws env s"
      by (rule ext) (rule field_throws_same, rule same_but_caches_field)
    then show ?thesis
      using False Cons [of ?t] by (simp add: process_field_cases)
  qed
qed

lemma process_fields_returns:
  "list_all (\<lambda>kv. \<not> field_throws env s kv) fs \<Longrightarrow> \<exists>t. process_fields env m fs s = Inr t"
proof (induction fs arbitrary: s)
  case Nil
  show ?case by simp
next
  case (Cons kv fs)
  let ?t = "call_out (field_call env m kv)
              (with_keyCache (field_group env kv) (field_change env kv) s)"
  have "field_throws env ?t = field_throws env s"
    by (rule ext) (rule field_throws_same, rule same_but_caches_field)
  then show ?case
    using Cons.prems Cons.IH [of ?t] by (simp add: process_field_cases)
qed

lemma process_fields_append:
  "process_fields env m pre s = Inr t \<Longrightarrow>
     process_fields env m (pre @ post) s = process_fields env m post t"
  by (induction pre arbitrary: s) (auto split: sum.splits)

lemma loaded_calls_append: "loaded_calls (a @ b) = loaded_calls a @ loaded_calls b"
  by (induction a rule: loaded_calls.induct) simp_all

lemma upsert_calls_append: "upsert_calls (a @ b) = upsert_calls a @ upsert_calls b"
  by (induction a rule: upsert_calls.induct) simp_all

lemma delete_calls_append: "delete_calls (a @ b) = delete_calls a @ delete_calls b"
  by (induction a rule: delete_calls.induct) simp_all

lemma sends_append: "sends (a @ b) = sends a @ sends b"
  by (induction a rule: sends.induct) simp_all

lemma loaded_calls_field_calls: "loaded_calls (map (field_call env m) fs) = []"
  by (induction fs) (simp_all add: field_call_def)

lemma sends_field_calls: "sends (map (field_call env m) fs) = []"
  by (induction fs) (simp_all add: field_call_def)

lemma upsert_calls_field_calls:
  "upsert_calls (map (field_call env m) fs) =
     replicate (length (filter (\<lambda>kv. \<not> str_includes (fst kv) ''_deleted'') fs)) m"
  by (induction fs) (simp_all add: field_call_def)

lemma delete_calls_field_calls:
  "delete_calls (map (field_call env m) fs) =
     map (\<lambda>kv. (trimEnd (fst kv) ''_deleted'', decode_keys env (snd kv)))
       (filter (\<lambda>kv. str_includes (fst kv) ''_deleted'') fs)"
  by (induction fs) (simp_all add: field_call_def)

text \<open>The calls one round of the dispatcher makes, by the branch it takes.\<close>

lemma calls_process_msg:
  "calls (final (process_msg env m s)) = calls s @
     (if truthy (map_of m ''sync_id'') then
        (if truthy (map_of m ''complete'') \<and> has_isLoaded env
         then [IsLoaded (case curSub s of None \<Rightarrow> [] | Some g \<Rightarrow> labels g)] else [])
      else if \<not> strict_eq (map_option CString (syncSent s)) (syncStarted s) then []
      else map (field_call env m) (takeWhile (\<lambda>kv. \<not> field_throws env s kv) m))"
  by (simp add: process_msg_def handleSubFinish_def calls_process_fields)

text \<open>A round keeps every field but the markers, the caches and the calls.\<close>

lemma process_msg_keeps:
  "numSyncs (final (process_msg env m s)) = numSyncs s"
  "pendingMsg (final (process_msg env m s)) = pendingMsg s"
  "syncSent (final (process_msg env m s)) = syncSent s"
  "subs (final (process_msg env m s)) = subs s"
  using process_fields_keeps [of s env m m]
  by (simp_all add: process_msg_def handleSubFinish_def same_but_caches_def)


lemmas run_defs =
  trials_env_def new_Stream_def initial_def advance_def connect_def call_out_def
  ws_onopen_def ws_onclose_def ws_onmessage_def subscribe_def close_def
  processPending_def process_msg_def handleSubFinish_def labels_def
  processSubscription_def shouldSkip_def sendSpec_def sendSpec_step_def spread_def
  without_cache_def toString.simps digit_char_def new_KeyCache_def known_def maxSeq_def
  backoffs_def Subscription.extend_def Subscription.truncate_def
  SubscriptionWithCache.fields_def Let_def and_then_def property_of_def
  object_prototype_names_def

lemma sent_state_eq:
  "sent_state =
     \<lparr>ws = Some OPEN, retries = 0, timeout = 0, numSyncs = 1, closedByClient = False,
      subs = [],
      curSub = Some [(''trials'',
        \<lparr>spec = (''trials'', ''a''), sub_id = Some ''L1'',
         keyCache = \<lparr>kc_keys = {}, kc_maxSeq = 0\<rparr>\<rparr>)],
      syncSent = Some ''1'', syncStarted = None, syncComplete = None, pendingMsg = [],
      calls = [NewWebSocket,
        WsSend \<lparr>p_known = [(''trials'', {})],
                p_subscribe = [(''trials'', [(''filter'', ''a'')], 0)],
                p_sync_id = ''1''\<rparr>]\<rparr>"
  by (simp add: sent_state_def run_defs)

lemma loaded_state_eq:
  "loaded_state =
     \<lparr>ws = Some OPEN, retries = 0, timeout = 0, numSyncs = 1, closedByClient = False,
      subs = [],
      curSub = Some [(''trials'',
        \<lparr>spec = (''trials'', ''a''), sub_id = Some ''L1'',
         keyCache = \<lparr>kc_keys = {}, kc_maxSeq = 0\<rparr>\<rparr>)],
      syncSent = Some ''1'', syncStarted = Some (CString ''1''),
      syncComplete = Some (CString ''1''), pendingMsg = [],
      calls = [NewWebSocket,
        WsSend \<lparr>p_known = [(''trials'', {})],
                p_subscribe = [(''trials'', [(''filter'', ''a'')], 0)],
                p_sync_id = ''1''\<rparr>,
        IsLoaded [''L1'']]\<rparr>"
  by (simp add: loaded_state_def run_defs)

subsection \<open>Stale live updates\<close>

text \<open>
  C1. A message whose \<^verbatim>\<open>sync_id\<close> field is absent (or falsy, which the source does not
  tell apart) and that is processed while \<^verbatim>\<open>#syncSent !== #syncStarted\<close> is dropped:
  the round of the loop that takes it off the queue returns, with every field as it was,
  so no key cache of the active subscription changes and no callback is called; the loop
  goes on with the rest of the queue.
\<close>

theorem stale_message_discarded:
  assumes "\<not> truthy (map_of m ''sync_id'')"
    and "\<not> strict_eq (map_option CString (syncSent s)) (syncStarted s)"
  shows "process_msg env m s = Inr s \<and>
         processPending env (s\<lparr>pendingMsg := m # rest\<rparr>) =
           processPending env (s\<lparr>pendingMsg := rest\<rparr>)"
proof -
  have drop: "process_msg env m t = Inr t"
    if "syncSent t = syncSent s" and "syncStarted t = syncStarted s" for t
    using assms that by (simp add: process_msg_def)
  have "process_msg env m (s\<lparr>pendingMsg := rest\<rparr>) = Inr (s\<lparr>pendingMsg := rest\<rparr>)"
    by (rule drop) simp_all
  then show ?thesis
    using drop [of s] by (simp add: processPending_def)
qed

theorem stale_message_discarded_witness:
  "\<not> truthy (map_of [(''trials'', CEntity 3 10 [])] ''sync_id'') \<and>
   \<not> strict_eq (map_option CString (syncSent sent_state)) (syncStarted sent_state) \<and>
   curSub (final (process_msg trials_env [(''trials'', CEntity 3 10 [])] sent_state)) =
     curSub sent_state \<and>
   calls (final (process_msg trials_env [(''trials'', CEntity 3 10 [])] sent_state)) =
     calls sent_state"
  using stale_message_discarded [of "[(''trials'', CEntity 3 10 [])]" sent_state trials_env "[]"]
  by (simp add: sent_state_eq)

subsection \<open>Catch-up markers\<close>

text \<open>
  C2, as amended. One round of the dispatcher calls the loaded callback exactly once when
  the message has a truthy \<^verbatim>\<open>sync_id\<close> and a truthy \<^verbatim>\<open>complete\<close> (and a loaded
  callback was passed to the constructor), with the non-empty labels of the subscription
  active at that moment, and not at all for any other message, whether the round returns
  or throws. The identifier the marker carries is not compared with the one in flight.
\<close>

theorem loaded_once_per_complete_marker:
  "loaded_calls (calls (final (process_msg env m s))) =
     loaded_calls (calls s) @
     (if has_isLoaded env \<and> truthy (map_of m ''sync_id'') \<and> truthy (map_of m ''complete'')
      then [case curSub s of None \<Rightarrow> [] | Some g \<Rightarrow> labels g] else [])"
  by (simp add: calls_process_msg loaded_calls_append loaded_calls_field_calls)

text \<open>
  C2 as stated fails. With sync 1 in flight and no marker seen, a completion marker for
  sync 7 fires the loaded callback; and after sync 1 was completed, a second and a third
  completion marker for it fire the callback a second and a third time.
\<close>

theorem loaded_fires_for_other_marker:
  "syncSent sent_state = Some ''1'' \<and>
   loaded_calls (calls sent_state) = [] \<and>
   loaded_calls (calls (final (run trials_env
     [(3, SocketMessage [(''sync_id'', CString ''7''), (''complete'', CBool True)])]
     sent_state))) = [[''L1'']] \<and>
   numSyncs loaded_state = 1 \<and>
   loaded_calls (calls loaded_state) = [[''L1'']] \<and>
   loaded_calls (calls (final (run trials_env
     [(5, SocketMessage [(''sync_id'', CString ''1''), (''complete'', CBool True)]),
      (6, SocketMessage [(''sync_id'', CString ''1''), (''complete'', CBool True)])]
     loaded_state))) = [[''L1''], [''L1''], [''L1'']]"
  by (simp add: sent_state_eq loaded_state_eq run_defs)

lemma toString_not_empty: "toString n \<noteq> []"
  by (subst toString.simps) simp

text \<open>
  C9. A message that carries a sync identifier is never dropped by the rule for stale
  updates. The identifier of every send is the decimal form of the counter, a string
  that is not empty and so truthy; and a message whose \<^verbatim>\<open>sync_id\<close> is truthy is
  handled as a marker whatever \<^verbatim>\<open>#syncSent\<close> and \<^verbatim>\<open>#syncStarted\<close> hold: the round
  returns, with a falsy or absent \<^verbatim>\<open>complete\<close> the identifier is recorded in
  \<^verbatim>\<open>#syncStarted\<close>, with a truthy \<^verbatim>\<open>complete\<close> the loaded callback is called (when
  there is one) and the identifier is recorded in \<^verbatim>\<open>#syncComplete\<close>.
\<close>

theorem marker_never_dropped:
  assumes "truthy (map_of m ''sync_id'')"
  shows "(\<exists>t. process_msg env m s = Inr t \<and>
            syncStarted t =
              (if truthy (map_of m ''complete'') then syncStarted s else map_of m ''sync_id'') \<and>
            syncComplete t =
              (if truthy (map_of m ''complete'') then map_of m ''sync_id'' else syncComplete s) \<and>
            calls t =
              calls s @
              (if truthy (map_of m ''complete'') \<and> has_isLoaded env
               then [IsLoaded (case curSub s of None \<Rightarrow> [] | Some g \<Rightarrow> labels g)] else [])) \<and>
         truthy (map_option CString (syncSent (sendSpec env g u))) \<and>
         truthy (Some (CString (toString n)))"
  using assms toString_not_empty
  by (simp add: process_msg_def handleSubFinish_def sendSpec_def Let_def)

theorem marker_never_dropped_witness:
  "\<not> strict_eq (map_option CString (syncSent sent_state)) (syncStarted sent_state) \<and>
   syncStarted (final (process_msg trials_env
     [(''sync_id'', CString ''1''), (''complete'', CBool False)] sent_state)) =
     Some (CString ''1'') \<and>
   syncComplete (final (process_msg trials_env
     [(''sync_id'', CString ''1''), (''complete'', CBool True)] sent_state)) =
     Some (CString ''1'') \<and>
   calls (final (process_msg trials_env
     [(''sync_id'', CString ''1''), (''complete'', CBool True)] sent_state)) =
     calls sent_state @ [IsLoaded [''L1'']]"
  using marker_never_dropped
      [of "[(''sync_id'', CString ''1''), (''complete'', CBool False)]" trials_env sent_state]
    marker_never_dropped
      [of "[(''sync_id'', CString ''1''), (''complete'', CBool True)]" trials_env sent_state]
  by (simp add: sent_state_eq trials_env_def labels_def process_msg_def handleSubFinish_def
      call_out_def)

subsection \<open>Delta messages\<close>

text \<open>
  A delta message that is not dropped (no truthy \<^verbatim>\<open>sync_id\<close>, and
  \<^verbatim>\<open>#syncSent === #syncStarted\<close>) and in which no field makes the call on the cache
  throw: the dispatcher calls the upsert callback once for each field whose name does
  not contain \<^verbatim>\<open>_deleted\<close>, each time with the whole message, and the delete callback
  once for each field whose name contains it.
\<close>

lemma callbacks_once_per_field:
  assumes "\<not> truthy (map_of m ''sync_id'')"
    and "strict_eq (map_option CString (syncSent s)) (syncStarted s)"
    and "list_all (\<lambda>kv. \<not> field_throws env s kv) m"
  shows "upsert_calls (calls (final (process_msg env m s))) =
           upsert_calls (calls s) @
           replicate (length (filter (\<lambda>kv. \<not> str_includes (fst kv) ''_deleted'') m)) m"
    and "delete_calls (calls (final (process_msg env m s))) =
           delete_calls (calls s) @
           map (\<lambda>kv. (trimEnd (fst kv) ''_deleted'', decode_keys env (snd kv)))
             (filter (\<lambda>kv. str_includes (fst kv) ''_deleted'') m)"
proof -
  have all: "takeWhile (\<lambda>kv. \<not> field_throws env s kv) m = m"
    using assms(3) by (simp add: list_all_iff)
  have c: "calls (final (process_msg env m s)) = calls s @ map (field_call env m) m"
    using assms(1,2) by (simp add: calls_process_msg all)
  show "upsert_calls (calls (final (process_msg env m s))) =
           upsert_calls (calls s) @
           replicate (length (filter (\<lambda>kv. \<not> str_includes (fst kv) ''_deleted'') m)) m"
    by (simp add: c upsert_calls_append upsert_calls_field_calls)
  show "delete_calls (calls (final (process_msg env m s))) =
           delete_calls (calls s) @
           map (\<lambda>kv. (trimEnd (fst kv) ''_deleted'', decode_keys env (snd kv)))
             (filter (\<lambda>kv. str_includes (fst kv) ''_deleted'') m)"
    by (simp add: c delete_calls_append delete_calls_field_calls)
qed

lemma callbacks_of_delta_msg:
  "upsert_calls (calls (final (process_msg trials_env delta_msg loaded_state))) =
     [delta_msg, delta_msg] \<and>
   delete_calls (calls (final (process_msg trials_env delta_msg loaded_state))) =
     [(''trials'', [3, 4])]"
  by (simp add: delta_msg_def loaded_state_eq trials_env_def process_msg_def
      process_field_def on_keyCache_def property_of_def object_prototype_names_def
      and_then_def call_out_def trimEnd_def Let_def)


subsection \<open>Routing of deletes and upserts\<close>

lemma starts_with_append: "starts_with (p @ r) p"
  by (induction p) simp_all

lemma str_includes_suffix: "str_includes (g @ p) p"
proof (induction g)
  case Nil
  show ?case using starts_with_append [of p "[]"] by (cases p) simp_all
next
  case (Cons c g)
  then show ?case by simp
qed

lemma trimEnd_suffix:
  assumes "g = [] \<or> last g \<notin> set chars"
  shows "trimEnd (g @ chars) chars = g"
proof -
  have "dropWhile (\<lambda>c. c \<in> set chars) (rev chars @ rev g) =
        dropWhile (\<lambda>c. c \<in> set chars) (rev g)"
    by (rule dropWhile_append2) simp
  moreover have "dropWhile (\<lambda>c. c \<in> set chars) (rev g) = rev g"
  proof (cases g rule: rev_cases)
    case Nil
    then show ?thesis by simp
  next
    case (snoc ys y)
    with assms show ?thesis by simp
  qed
  ultimately show ?thesis by (simp add: trimEnd_def)
qed

lemma cache_of_with_keyCache: "cache_of g (with_keyCache g f t) = map_option f (cache_of g t)"
  by (simp add: cache_of_def with_keyCache_def update_conv' split: option.splits)

lemma cache_of_on_keyCache:
  "cache_of g (final (on_keyCache g f t)) = map_option f (cache_of g t)"
proof (cases "lookup_throws t g")
  case True
  then have "cache_of g t = None"
    by (auto simp: lookup_throws_def cache_of_def property_of_def split: option.splits if_splits)
  with True show ?thesis by (simp add: on_keyCache_cases)
next
  case False
  then show ?thesis by (simp add: on_keyCache_cases cache_of_with_keyCache)
qed

lemma process_field_deleted:
  assumes "g = [] \<or> last g \<notin> set ''_deleted''"
  shows "process_field env m (g @ ''_deleted'', v) t =
     and_then (on_keyCache g (delete_msg (decode_keys env v)) t)
       (\<lambda>u. Inr (call_out (OnDelete g (decode_keys env v)) u))"
  using trimEnd_suffix [OF assms] str_includes_suffix [of g "''_deleted''"]
  by (simp add: process_field_def Let_def)

lemma process_field_entity:
  assumes "\<not> str_includes k ''_deleted''" and "StreamEntityMap env k = Some g'"
  shows "process_field env m (k, CEntity i q fs) t =
     and_then (on_keyCache g' (upsert [i] q) t) (\<lambda>u. Inr (call_out (OnUpsert m) u))"
  using assms by (simp add: process_field_def Let_def)

text \<open>
  The fields before a field do not throw, and the call on the cache of \<open>h\<close> does not
  throw: the loop comes to the field with the groups it started with, and the call on
  the cache returns.
\<close>

lemma field_reached:
  assumes "list_all (\<lambda>kv. \<not> field_throws env s kv) pre" and "\<not> lookup_throws s h"
  shows "\<exists>t u. process_fields env m pre s = Inr t \<and> on_keyCache h f t = Inr u \<and>
           process_fields env m (pre @ x # post) s =
             (case process_field env m x t of
                Inl e \<Rightarrow> Inl e
              | Inr t' \<Rightarrow> process_fields env m post t')"
proof -
  obtain t where t: "process_fields env m pre s = Inr t"
    using process_fields_returns [OF assms(1)] by blast
  have "same_but_caches s t"
    using process_fields_keeps [of s env m pre] t by simp
  then have "lookup_throws t h = lookup_throws s h"
    by (intro lookup_throws_keys) (simp add: same_but_caches_def)
  then have "on_keyCache h f t = Inr (with_keyCache h f t)"
    using assms(2) by (simp add: on_keyCache_cases)
  moreover have "process_fields env m (pre @ x # post) s =
      (case process_field env m x t of
         Inl e \<Rightarrow> Inl e
       | Inr t' \<Rightarrow> process_fields env m post t')"
    using process_fields_append [OF t, of "x # post"] by simp
  ultimately show ?thesis using t by blast
qed

text \<open>
  C6, as amended. Let a delta message be processed that is not dropped: it has no truthy
  \<^verbatim>\<open>sync_id\<close>, and \<^verbatim>\<open>#syncSent === #syncStarted\<close>. Let no field before the one in
  question make the call on the cache throw, and let the group of the field itself not
  be the name of a member every object inherits (unless the active subscription has a
  group of that name). For a group name \<open>g\<close> that is empty or does not end in one of
  the characters of \<^verbatim>\<open>_deleted\<close>, a field named \<open>g_deleted\<close> then has its value
  decoded, the delete applied to the key cache of \<open>g\<close> and the delete callback called
  with \<open>g\<close> and the decoded keys, at the turn of that field. A field whose name lacks
  the marker and that the entity table sends to the group \<open>g'\<close> has its id and
  sequence number recorded in the key cache of \<open>g'\<close> and the upsert callback called
  with the whole message. The call on the cache of a group changes the cache the active
  subscription holds for that group, if it holds one; an upsert raises the cache's
  highest sequence number to the new one when that is higher, and a delete removes the
  keys from the known ones.
\<close>

theorem delete_and_upsert_routing:
  assumes "\<not> truthy (map_of m ''sync_id'')"
    and "strict_eq (map_option CString (syncSent s)) (syncStarted s)"
  shows "(m = pre @ (g @ ''_deleted'', v) # post \<and>
          (g = [] \<or> last g \<notin> set ''_deleted'') \<and>
          list_all (\<lambda>kv. \<not> field_throws env s kv) pre \<and> \<not> lookup_throws s g \<longrightarrow>
            (\<exists>t u. process_fields env m pre s = Inr t \<and>
                   on_keyCache g (delete_msg (decode_keys env v)) t = Inr u \<and>
                   process_msg env m s =
                     process_fields env m post
                       (call_out (OnDelete g (decode_keys env v)) u))) \<and>
         (m = pre' @ (k, CEntity i q fs) # post' \<and>
          \<not> str_includes k ''_deleted'' \<and> StreamEntityMap env k = Some g' \<and>
          list_all (\<lambda>kv. \<not> field_throws env s kv) pre' \<and> \<not> lookup_throws s g' \<longrightarrow>
            (\<exists>t u. process_fields env m pre' s = Inr t \<and>
                   on_keyCache g' (upsert [i] q) t = Inr u \<and>
                   process_msg env m s =
                     process_fields env m post' (call_out (OnUpsert m) u))) \<and>
         cache_of h (final (on_keyCache h f w)) = map_option f (cache_of h w) \<and>
         maxSeq (upsert [i] q kc) = max (maxSeq kc) q \<and>
         known (delete_msg ks kc) = known kc - set ks"
proof -
  have whole: "process_msg env m s = process_fields env m m s"
    using assms by (simp add: process_msg_def)
  have del: "\<exists>t u. process_fields env m pre s = Inr t \<and>
                   on_keyCache g (delete_msg (decode_keys env v)) t = Inr u \<and>
                   process_msg env m s =
                     process_fields env m post
                       (call_out (OnDelete g (decode_keys env v)) u)"
    if m: "m = pre @ (g @ ''_deleted'', v) # post"
      and g: "g = [] \<or> last g \<notin> set ''_deleted''"
      and quiet: "list_all (\<lambda>kv. \<not> field_throws env s kv) pre" "\<not> lookup_throws s g"
  proof -
    obtain t u where t: "process_fields env m pre s = Inr t"
      and u: "on_keyCache g (delete_msg (decode_keys env v)) t = Inr u"
      and r: "process_fields env m (pre @ (g @ ''_deleted'', v) # post) s =
               (case process_field env m (g @ ''_deleted'', v) t of
                  Inl e \<Rightarrow> Inl e
                | Inr t' \<Rightarrow> process_fields env m post t')"
      using field_reached [OF quiet, of m "delete_msg (decode_keys env v)"
          "(g @ ''_deleted'', v)" post]
      by blast
    have "process_field env m (g @ ''_deleted'', v) t =
            Inr (call_out (OnDelete g (decode_keys env v)) u)"
      by (simp add: process_field_deleted [OF g] u and_then_def)
    then have "process_msg env m s =
        process_fields env m post (call_out (OnDelete g (decode_keys env v)) u)"
      using whole m r by simp
    then show ?thesis using t u by blast
  qed
  have ups: "\<exists>t u. process_fields env m pre' s = Inr t \<and>
                   on_keyCache g' (upsert [i] q) t = Inr u \<and>
                   process_msg env m s =
                     process_fields env m post' (call_out (OnUpsert m) u)"
    if m: "m = pre' @ (k, CEntity i q fs) # post'"
      and k: "\<not> str_includes k ''_deleted''" "StreamEntityMap env k = Some g'"
      and quiet: "list_all (\<lambda>kv. \<not> field_throws env s kv) pre'" "\<not> lookup_throws s g'"
  proof -
    obtain t u where t: "process_fields env m pre' s = Inr t"
      and u: "on_keyCache g' (upsert [i] q) t = Inr u"
      and r: "process_fields env m (pre' @ (k, CEntity i q fs) # post') s =
               (case process_field env m (k, CEntity i q fs) t of
                  Inl e \<Rightarrow> Inl e
                | Inr t' \<Rightarrow> process_fields env m post' t')"
      using field_reached [OF quiet, of m "upsert [i] q" "(k, CEntity i q fs)" post']
      by blast
    have "process_field env m (k, CEntity i q fs) t = Inr (call_out (OnUpsert m) u)"
      by (simp add: process_field_entity [OF k] u and_then_def)
    then have "process_msg env m s = process_fields env m post' (call_out (OnUpsert m) u)"
      using whole m r by simp
    then show ?thesis using t u by blast
  qed
  have "maxSeq (upsert [i] q kc) = max (maxSeq kc) q"
    by (simp add: maxSeq_def upsert_def)
  moreover have "known (delete_msg ks kc) = known kc - set ks"
    by (simp add: known_def delete_msg_def)
  ultimately show ?thesis
    using del ups cache_of_on_keyCache [of h f w] by blast
qed

theorem delete_and_upsert_routing_witness:
  "calls (final (process_msg trials_env [(''trials_deleted'', CString ''3-4'')] loaded_state)) =
     calls loaded_state @ [OnDelete ''trials'' [3, 4]] \<and>
   calls (final (process_msg trials_env [(''trials'', CEntity 3 10 [])] loaded_state)) =
     calls loaded_state @ [OnUpsert [(''trials'', CEntity 3 10 [])]] \<and>
   map_option maxSeq (cache_of ''trials'' loaded_state) = Some 0 \<and>
   map_option maxSeq (cache_of ''trials''
     (final (process_msg trials_env [(''trials'', CEntity 3 10 [])] loaded_state))) = Some 10"
  using delete_and_upsert_routing
      [of "[(''trials_deleted'', CString ''3-4'')]" loaded_state "[]" "''trials''"
          "CString ''3-4''" "[]" trials_env "[]" "''trials''" 3 10 "[]" "[]" "''trials''"
          "''trials''" "upsert [3] 10" loaded_state "\<lparr>kc_keys = {}, kc_maxSeq = 0\<rparr>" "[3, 4]"]
    delete_and_upsert_routing
      [of "[(''trials'', CEntity 3 10 [])]" loaded_state "[]" "''trials''"
          "CString ''3-4''" "[]" trials_env "[]" "''trials''" 3 10 "[]" "[]" "''trials''"
          "''trials''" "upsert [3] 10" loaded_state "\<lparr>kc_keys = {}, kc_maxSeq = 0\<rparr>" "[3, 4]"]
  by (simp add: loaded_state_eq trials_env_def cache_of_def maxSeq_def upsert_def
      lookup_throws_def property_of_def object_prototype_names_def on_keyCache_def
      delete_msg_def call_out_def)

text \<open>
  C6 as stated fails on its own example. The message with the fields
  \<^verbatim>\<open>trials_deleted\<close> and \<^verbatim>\<open>sync_id\<close> has a truthy \<^verbatim>\<open>sync_id\<close>, so it is taken for
  a marker: no callback is called and no cache changes, while sync 7 is active and
  completed. And the group name is cut by \<^verbatim>\<open>trimEnd\<close>, which strips a set of
  characters: for a field \<^verbatim>\<open>model_deleted\<close> the delete callback gets the group
  \<^verbatim>\<open>mo\<close>.
\<close>

theorem delete_with_sync_id_is_a_marker:
  "decode_keys trials_env (CString ''3-4'') = [3, 4] \<and>
   strict_eq (map_option CString (syncSent synced7_state)) (syncComplete synced7_state) \<and>
   process_msg trials_env
     [(''trials_deleted'', CString ''3-4''), (''sync_id'', CString ''7'')] synced7_state =
     Inr (synced7_state\<lparr>syncStarted := Some (CString ''7'')\<rparr>) \<and>
   syncStarted synced7_state = Some (CString ''7'') \<and>
   calls (final (process_msg trials_env
     [(''trials_deleted'', CString ''3-4''), (''sync_id'', CString ''7'')] synced7_state)) =
     calls synced7_state \<and>
   curSub (final (process_msg trials_env
     [(''trials_deleted'', CString ''3-4''), (''sync_id'', CString ''7'')] synced7_state)) =
     curSub synced7_state \<and>
   delete_calls (calls (final (process_msg trials_env
     [(''model_deleted'', CString ''3-4'')] synced7_state))) = [(''mo'', [3, 4])]"
  by (simp add: synced7_state_def loaded_state_eq trials_env_def process_msg_def process_field_def
      trimEnd_def call_out_def on_keyCache_def property_of_def object_prototype_names_def
      and_then_def)

subsection \<open>One send per pass\<close>

lemma final_and_then:
  "final (and_then r f) = (case r of Inl x \<Rightarrow> snd x | Inr s \<Rightarrow> final (f s))"
  by (simp add: and_then_def split: sum.splits)

lemma emits_refl: "calls s' = calls s \<Longrightarrow> numSyncs s' = numSyncs s \<Longrightarrow> emits 0 s s'"
  by (simp add: emits_def)

lemma emits_trans: "emits a s t \<Longrightarrow> emits b t u \<Longrightarrow> emits (a + b) s u"
  by (auto simp: emits_def sends_append)

lemma emits_process_msg: "emits 0 s (final (process_msg env m s))"
  by (simp add: emits_def calls_process_msg process_msg_keeps sends_field_calls)

lemma emits_processPending_loop: "emits 0 s (final (processPending_loop env ms s))"
proof (induction ms arbitrary: s)
  case Nil
  show ?case by (simp add: emits_refl)
next
  case (Cons m rest)
  have "emits 0 s (s\<lparr>pendingMsg := rest\<rparr>)"
    by (simp add: emits_refl)
  from emits_trans [OF this emits_process_msg]
  have a: "emits 0 s (final (process_msg env m (s\<lparr>pendingMsg := rest\<rparr>)))"
    by simp
  show ?case
  proof (cases "process_msg env m (s\<lparr>pendingMsg := rest\<rparr>)")
    case (Inl x)
    with a show ?thesis by simp
  next
    case (Inr t)
    with a have "emits 0 s t" by simp
    from emits_trans [OF this Cons.IH [of t]] Inr show ?thesis by simp
  qed
qed

lemma emits_processPending: "emits 0 s (final (processPending env s))"
  by (simp add: processPending_def emits_processPending_loop)

lemma emits_sendSpec: "emits 1 s (sendSpec env g s)"
  by (simp add: emits_def sendSpec_def Let_def)

lemma emits_handleSubFinish: "emits 0 s (handleSubFinish env g s)"
  by (simp add: emits_def handleSubFinish_def)

lemma emits_le_one_refl: "\<exists>n\<le>1. emits n s s"
  by (rule exI [of _ 0]) (simp add: emits_refl)

lemma emits_processSubscription_loop:
  "\<exists>n\<le>1. emits n s (final (processSubscription_loop env q s))"
proof (induction q arbitrary: s)
  case Nil
  show ?case using emits_le_one_refl [of s] by simp
next
  case (Cons sp rest)
  have a: "emits 0 s (s\<lparr>subs := rest\<rparr>)"
    by (simp add: emits_refl)
  show ?case
  proof (cases "shouldSkip env s sp")
    case (Inl e)
    with a show ?thesis by auto
  next
    case (Inr skip)
    show ?thesis
    proof (cases skip)
      case True
      from emits_trans [OF a emits_handleSubFinish]
      have b: "emits 0 s (handleSubFinish env (Some sp) (s\<lparr>subs := rest\<rparr>))"
        by simp
      obtain n where "n \<le> 1"
        "emits n (handleSubFinish env (Some sp) (s\<lparr>subs := rest\<rparr>))
           (final (processSubscription_loop env rest
              (handleSubFinish env (Some sp) (s\<lparr>subs := rest\<rparr>))))"
        using Cons.IH by blast
      with emits_trans [OF b] have "\<exists>n\<le>1. emits n s
           (final (processSubscription_loop env rest
              (handleSubFinish env (Some sp) (s\<lparr>subs := rest\<rparr>))))"
        by (metis add_0)
      with Inr True show ?thesis by simp
    next
      case False
      from emits_trans [OF a emits_sendSpec]
      have "emits 1 s (sendSpec env sp (s\<lparr>subs := rest\<rparr>))"
        by simp
      with Inr False show ?thesis by auto
    qed
  qed
qed

lemma emits_processSubscription: "\<exists>n\<le>1. emits n s (final (processSubscription env s))"
proof -
  have send: "\<exists>n\<le>1. emits n s (sendSpec env g s)" for g
    using emits_sendSpec by blast
  have pop: "\<exists>n\<le>1. emits n s (sendSpec env g (s\<lparr>subs := rest\<rparr>))" for g rest
  proof -
    have "emits 0 s (s\<lparr>subs := rest\<rparr>)" by (simp add: emits_refl)
    from emits_trans [OF this emits_sendSpec] show ?thesis
      by (metis add_0 order_refl)
  qed
  show ?thesis
    unfolding processSubscription_def
    using send pop emits_le_one_refl [of s] emits_processSubscription_loop [of s env "subs s"]
    by (simp split: option.splits list.splits)
qed

lemma emits_pass:
  assumes "emits 0 s t"
  shows "\<exists>n\<le>1. emits n s (final (and_then (processPending env t) (processSubscription env)))"
proof -
  from emits_trans [OF assms emits_processPending]
  have a: "emits 0 s (final (processPending env t))" by simp
  show ?thesis
  proof (cases "processPending env t")
    case (Inl x)
    with a show ?thesis by (auto simp: final_and_then)
  next
    case (Inr u)
    with a have b: "emits 0 s u" by simp
    obtain n where "n \<le> 1" "emits n u (final (processSubscription env u))"
      using emits_processSubscription by blast
    with emits_trans [OF b] have "\<exists>n\<le>1. emits n s (final (processSubscription env u))"
      by (metis add_0)
    with Inr show ?thesis by (simp add: final_and_then)
  qed
qed

lemma emits_advance: "\<exists>n\<le>1. emits n s (final (advance env now s))"
proof -
  have e0: "emits 0 s s" by (simp add: emits_refl)
  have e1: "emits 0 s (s\<lparr>ws := w\<rparr>)" for w by (simp add: emits_refl)
  have e2: "emits 0 s (connect (s\<lparr>ws := w\<rparr>))" for w
    by (simp add: emits_def connect_def)
  have e3: "emits 0 s (connect s)"
    by (simp add: emits_def connect_def)
  have e4: "emits 0 s (call_out WsClose (s\<lparr>ws := w\<rparr>))" for w
    by (simp add: emits_def)
  show ?thesis
    unfolding advance_def Let_def
    using emits_pass [OF e0] emits_pass [OF e1] emits_pass [OF e2] emits_pass [OF e3]
      e0 e1 e2 e3 e4
    by (auto split: option.splits simp: connect_def)
qed

lemma shouldSkip_cong: "curSub t = curSub s \<Longrightarrow> shouldSkip env t sp = shouldSkip env s sp"
  by (simp add: shouldSkip_def)

lemma sendSpec_keeps:
  "subs (sendSpec env g s) = subs s"
  "numSyncs (sendSpec env g s) = numSyncs s + 1"
  by (simp_all add: sendSpec_def Let_def)

lemma handleSubFinish_keeps:
  "curSub (handleSubFinish env g s) = curSub s"
  "numSyncs (handleSubFinish env g s) = numSyncs s"
  "subs (handleSubFinish env g s) = subs s"
  by (simp_all add: handleSubFinish_def)

lemma loop_stops_at_first_send:
  assumes "list_all (\<lambda>g. shouldSkip env s g = Inr True) pre"
    and "shouldSkip env s sp = Inr False"
  shows "\<exists>t. processSubscription_loop env (pre @ sp # rest) s = Inr t \<and>
           subs t = rest \<and> numSyncs t = numSyncs s + 1"
  using assms
proof (induction pre arbitrary: s)
  case Nil
  then show ?case by (simp add: sendSpec_keeps)
next
  case (Cons a pre)
  let ?t = "handleSubFinish env (Some a) (s\<lparr>subs := pre @ sp # rest\<rparr>)"
  have same: "shouldSkip env ?t = shouldSkip env s"
    by (rule ext, rule shouldSkip_cong) (simp add: handleSubFinish_keeps)
  have "list_all (\<lambda>g. shouldSkip env ?t g = Inr True) pre" and "shouldSkip env ?t sp = Inr False"
    using Cons.prems by (simp_all add: same)
  from Cons.IH [OF this] Cons.prems show ?case
    by (simp add: handleSubFinish_keeps)
qed

text \<open>
  C8. Whatever the fields hold, one pass of \<^verbatim>\<open>#advance\<close>, whether it returns or
  throws, adds calls to those made so far, with at most one send among them, and moves
  the counter of syncs by the number of sends. In the loop over the queue, when the
  entries in front are skippable and the next one is not, that one is sent as the next
  sync and the entries behind it stay queued.
\<close>

theorem one_send_per_advance:
  "(\<exists>cs. calls (final (advance env now s)) = calls s @ cs \<and> length (sends cs) \<le> 1 \<and>
         numSyncs (final (advance env now s)) = numSyncs s + length (sends cs)) \<and>
   (list_all (\<lambda>g. shouldSkip env s g = Inr True) pre \<and> shouldSkip env s sp = Inr False \<longrightarrow>
      (\<exists>t. processSubscription_loop env (pre @ sp # rest) s = Inr t \<and>
           subs t = rest \<and> numSyncs t = numSyncs s + 1))"
  using emits_advance [of s env now] loop_stops_at_first_send [of env s pre sp rest]
  by (auto simp: emits_def)

theorem one_send_per_advance_witness:
  "list_all (\<lambda>g. shouldSkip trials_env queued_state g = Inr True)
     [[(''trials'', \<lparr>spec = (''trials'', ''a''), sub_id = Some ''L2''\<rparr>)]] \<and>
   shouldSkip trials_env queued_state
     [(''trials'', \<lparr>spec = (''trials'', ''b''), sub_id = Some ''L3''\<rparr>)] = Inr False \<and>
   map p_sync_id (sends (calls (final (advance trials_env 9 queued_state)))) = [''1'', ''2''] \<and>
   numSyncs (final (advance trials_env 9 queued_state)) = 2 \<and>
   subs (final (advance trials_env 9 queued_state)) =
     [[(''trials'', \<lparr>spec = (''trials'', ''c''), sub_id = Some ''L4''\<rparr>)]] \<and>
   subs (final (processSubscription_loop trials_env (subs queued_state) queued_state)) =
     [[(''trials'', \<lparr>spec = (''trials'', ''c''), sub_id = Some ''L4''\<rparr>)]]"
  using one_send_per_advance
      [of trials_env 9 queued_state
          "[[(''trials'', \<lparr>spec = (''trials'', ''a''), sub_id = Some ''L2''\<rparr>)]]"
          "[(''trials'', \<lparr>spec = (''trials'', ''b''), sub_id = Some ''L3''\<rparr>)]"
          "[[(''trials'', \<lparr>spec = (''trials'', ''c''), sub_id = Some ''L4''\<rparr>)]]"]
  by (simp add: queued_state_def loaded_state_eq run_defs)

subsection \<open>Subscribing again to what is active\<close>

lemma pendingMsg_process_msg: "process_msg env m s = Inr t \<Longrightarrow> pendingMsg t = pendingMsg s"
  using process_msg_keeps(2) [of env m s] by simp

lemma pendingMsg_processPending_loop:
  "processPending_loop env ms s = Inr t \<Longrightarrow>
     pendingMsg t = (if ms = [] then pendingMsg s else [])"
proof (induction ms arbitrary: s)
  case Nil
  then show ?case by simp
next
  case (Cons m rest)
  then obtain u where u: "process_msg env m (s\<lparr>pendingMsg := rest\<rparr>) = Inr u"
    and t: "processPending_loop env rest u = Inr t"
    by (auto split: sum.splits)
  have "pendingMsg u = rest" using pendingMsg_process_msg [OF u] by simp
  with Cons.IH [OF t] show ?case by simp
qed

lemma pendingMsg_processPending: "processPending env s = Inr t \<Longrightarrow> pendingMsg t = []"
  using pendingMsg_processPending_loop [of env "pendingMsg s" s t]
  by (simp add: processPending_def)

lemma pendingMsg_sendSpec: "pendingMsg (sendSpec env g s) = pendingMsg s"
  by (simp add: sendSpec_def Let_def)

lemma pendingMsg_handleSubFinish: "pendingMsg (handleSubFinish env g s) = pendingMsg s"
  by (simp add: handleSubFinish_def)

lemma pendingMsg_processSubscription_loop:
  "pendingMsg (final (processSubscription_loop env q s)) = pendingMsg s"
  by (induction q arbitrary: s)
    (simp_all add: pendingMsg_sendSpec pendingMsg_handleSubFinish split: sum.splits)

lemma pendingMsg_processSubscription:
  "pendingMsg (final (processSubscription env s)) = pendingMsg s"
  by (simp add: processSubscription_def pendingMsg_sendSpec pendingMsg_processSubscription_loop
      split: option.splits list.splits)

text \<open>
  On an open socket that the owner has not closed, a pass that returns leaves no message
  pending.
\<close>

lemma pending_drained:
  assumes "\<not> closedByClient s" and "ws s = Some OPEN" and "advance env now s = Inr t"
  shows "pendingMsg t = []"
proof -
  obtain u where u: "processPending env s = Inr u" and t: "processSubscription env u = Inr t"
    using assms by (auto simp: advance_def and_then_def split: sum.splits)
  have "pendingMsg t = pendingMsg u"
    using pendingMsg_processSubscription [of env u] t by simp
  with pendingMsg_processPending [OF u] show ?thesis by simp
qed

text \<open>
  C5. The stream is live (the socket is open and the owner has not closed the stream),
  no message is pending and no request is queued, as a pass leaves it once the catch-up
  of the sync in flight has completed (\<^verbatim>\<open>#syncComplete === #syncSent\<close>), and the active
  subscription holds, for the group of \<open>sp\<close>, a spec that \<^verbatim>\<open>equals\<close> \<open>sp\<close>. Then
  \<^verbatim>\<open>subscribe(sp, l)\<close> with a non-empty label \<open>l\<close> returns and sends nothing: all it
  does is call the loaded callback with \<open>[l]\<close>.
\<close>

theorem resubscribe_same_spec_skipped:
  assumes "has_isLoaded env" and "\<not> closedByClient s" and "ws s = Some OPEN"
    and "pendingMsg s = []" and "subs s = []"
    and "curSub s = Some cur" and "map_of cur (spec_id env sp) = Some e"
    and "spec_equals env (spec e) sp"
    and "syncSent s = Some n" and "n \<noteq> []" and "syncComplete s = Some (CString n)"
    and "l \<noteq> []"
  shows "subscribe env now sp (Some l) s = Inr (call_out (IsLoaded [l]) s)"
  using assms
  by (simp add: subscribe_def advance_def processPending_def processSubscription_def
      shouldSkip_def handleSubFinish_def labels_def call_out_def and_then_def property_of_def)

theorem resubscribe_same_spec_skipped_witness:
  "strict_eq (syncComplete loaded_state) (map_option CString (syncSent loaded_state)) \<and>
   subscribe trials_env 9 (''trials'', ''a'') (Some ''L2'') loaded_state =
     Inr (call_out (IsLoaded [''L2'']) loaded_state) \<and>
   sends (calls (final (subscribe trials_env 9 (''trials'', ''a'') (Some ''L2'') loaded_state))) =
     sends (calls loaded_state)"
  using resubscribe_same_spec_skipped
      [of trials_env loaded_state _ "(''trials'', ''a'')" _ "''1''" "''L2''" 9]
  by (simp add: loaded_state_eq trials_env_def call_out_def)

subsection \<open>Backoff\<close>

lemma timeouts_append: "timeouts (a @ b) = timeouts a @ timeouts b"
  by (induction a rule: timeouts.induct) simp_all

lemma advance_after_close:
  assumes "ws s = Some CLOSED" and "timeout s \<le> now"
  shows "\<exists>t. advance env now s = Inr t \<and> retries t = retries s \<and>
           timeouts (calls t) = timeouts (calls s)"
  using assms by (simp add: advance_def connect_def timeouts_append)

lemma close_with_retries_left:
  assumes "retries s < length backoffs"
  shows "\<exists>s'. handle env now SocketClosed s = Inr s' \<and> ws s' = Some CLOSED \<and>
           timeout s' = now + int (backoffs ! retries s) * 1000 \<and>
           retries s' = Suc (retries s) \<and>
           calls s' = calls s @ [SetTimeout (int (backoffs ! retries s) * 1000)]"
  using assms by (simp add: ws_onclose_def Let_def)

lemma close_without_retries_left:
  assumes "\<not> retries s < length backoffs"
  shows "handle env now SocketClosed s =
           Inl (Error ''Websocket cannot reconnect!'', s\<lparr>ws := Some CLOSED, syncSent := None\<rparr>)"
  using assms by (simp add: ws_onclose_def Let_def)

text \<open>A close with retries left, and the timer it set: the next socket is on its way.\<close>

lemma close_and_timer:
  assumes "retries s < length backoffs"
  shows "\<exists>s1 s2. handle env now SocketClosed s = Inr s1 \<and>
           handle env (timeout s1) TimerFired s1 = Inr s2 \<and>
           retries s2 = Suc (retries s) \<and>
           timeouts (calls s2) = timeouts (calls s) @ [int (backoffs ! retries s) * 1000]"
proof -
  from close_with_retries_left [OF assms, of env now]
  obtain s1 where s1: "handle env now SocketClosed s = Inr s1" "ws s1 = Some CLOSED"
    "retries s1 = Suc (retries s)"
    "calls s1 = calls s @ [SetTimeout (int (backoffs ! retries s) * 1000)]"
    by blast
  from advance_after_close [OF s1(2), of "timeout s1" env]
  obtain s2 where s2: "advance env (timeout s1) s1 = Inr s2" "retries s2 = retries s1"
    "timeouts (calls s2) = timeouts (calls s1)"
    by auto
  have "handle env (timeout s1) TimerFired s1 = Inr s2"
    using s2(1) by simp
  moreover have "timeouts (calls s2) = timeouts (calls s) @ [int (backoffs ! retries s) * 1000]"
    using s2(3) s1(4) by (simp add: timeouts_append)
  ultimately show ?thesis using s1(1,3) s2(2) by auto
qed

lemma disconnects_within_table:
  assumes "retries s + n \<le> length backoffs"
  shows "\<exists>s'. disconnects env n now s = Inr s' \<and> retries s' = retries s + n \<and>
           timeouts (calls s') =
             timeouts (calls s) @ map (\<lambda>k. int (backoffs ! k) * 1000) [retries s..<retries s + n]"
  using assms
proof (induction n arbitrary: s now)
  case 0
  show ?case by simp
next
  case (Suc n)
  then have "retries s < length backoffs" by simp
  from close_and_timer [OF this, of env now]
  obtain s1 s2 where s1: "handle env now SocketClosed s = Inr s1"
    and t: "handle env (timeout s1) TimerFired s1 = Inr s2"
    and s2: "retries s2 = Suc (retries s)"
      "timeouts (calls s2) = timeouts (calls s) @ [int (backoffs ! retries s) * 1000]"
    by blast
  have "retries s2 + n \<le> length backoffs"
    using Suc.prems s2(1) by simp
  from Suc.IH [OF this, of "timeout s1"]
  obtain s' where s': "disconnects env n (timeout s1) s2 = Inr s'"
    "retries s' = retries s2 + n"
    "timeouts (calls s') = timeouts (calls s2) @
       map (\<lambda>k. int (backoffs ! k) * 1000) [retries s2..<retries s2 + n]"
    by blast
  have "[retries s..<retries s + Suc n] = retries s # [Suc (retries s)..<Suc (retries s) + n]"
    by (simp add: upt_conv_Cons)
  with s1 t s' s2 show ?case by simp
qed

lemma disconnects_past_table:
  assumes "retries s + n = Suc (length backoffs)" and "0 < n"
  shows "\<exists>s'. disconnects env n now s = Inl (Error ''Websocket cannot reconnect!'', s') \<and>
           timeouts (calls s') =
             timeouts (calls s) @ map (\<lambda>k. int (backoffs ! k) * 1000) [retries s..<length backoffs]"
  using assms
proof (induction n arbitrary: s now)
  case 0
  then show ?case by simp
next
  case (Suc n)
  show ?case
  proof (cases "n = 0")
    case True
    with Suc.prems have "\<not> retries s < length backoffs" by simp
    from close_without_retries_left [OF this, of env now] this show ?thesis
      by simp
  next
    case False
    with Suc.prems have lt: "retries s < length backoffs" by simp
    from close_and_timer [OF this, of env now]
    obtain s1 s2 where s1: "handle env now SocketClosed s = Inr s1"
      and t: "handle env (timeout s1) TimerFired s1 = Inr s2"
      and s2: "retries s2 = Suc (retries s)"
        "timeouts (calls s2) = timeouts (calls s) @ [int (backoffs ! retries s) * 1000]"
      by blast
    have "retries s2 + n = Suc (length backoffs)" and "0 < n"
      using Suc.prems s2(1) False by simp_all
    from Suc.IH [OF this, of "timeout s1"]
    obtain s' where s':
      "disconnects env n (timeout s1) s2 = Inl (Error ''Websocket cannot reconnect!'', s')"
      "timeouts (calls s') = timeouts (calls s2) @
         map (\<lambda>k. int (backoffs ! k) * 1000) [retries s2..<length backoffs]"
      by blast
    have "[retries s..<length backoffs] = retries s # [Suc (retries s)..<length backoffs]"
      using lt by (simp add: upt_conv_Cons)
    with s1 t s' s2 show ?thesis by simp
  qed
qed

text \<open>
  C7. Start where the retry counter is 0, as it is after the constructor and after every
  open. Of \<open>n\<close> disconnects in a row, \<open>n\<close> up to the length of the table, none throws,
  and the delays they schedule are the first \<open>n\<close> entries of the table
  \<open>0, 1, 2, 4, 8, 10, 10, 10, 15\<close> in seconds (times 1000, in milliseconds), one each. One
  disconnect more than the table has entries throws the error
  \<^verbatim>\<open>Websocket cannot reconnect!\<close> and schedules nothing further.
\<close>

theorem backoff_table_then_fatal:
  assumes "retries s = 0" and "n \<le> length backoffs"
  shows "(\<exists>s'. disconnects env n now s = Inr s' \<and> retries s' = n \<and>
            timeouts (calls s') =
              timeouts (calls s) @ map (\<lambda>k. int (backoffs ! k) * 1000) [0..<n]) \<and>
         (\<exists>s'. disconnects env (Suc (length backoffs)) now s =
                 Inl (Error ''Websocket cannot reconnect!'', s') \<and>
            timeouts (calls s') =
              timeouts (calls s) @ map (\<lambda>k. int (backoffs ! k) * 1000) [0..<length backoffs])"
  using disconnects_within_table [of s n env now]
    disconnects_past_table [of s "Suc (length backoffs)" env now] assms
  by simp

theorem backoff_table_then_fatal_witness:
  "retries (new_Stream trials_env 0) = 0 \<and>
   timeouts (calls (final (disconnects trials_env 9 0 (new_Stream trials_env 0)))) =
     [0, 1000, 2000, 4000, 8000, 10000, 10000, 10000, 15000] \<and>
   isl (disconnects trials_env 10 0 (new_Stream trials_env 0)) \<and>
   timeouts (calls (final (disconnects trials_env 10 0 (new_Stream trials_env 0)))) =
     [0, 1000, 2000, 4000, 8000, 10000, 10000, 10000, 15000]"
  using backoff_table_then_fatal [of "new_Stream trials_env 0" 9 trials_env 0]
  by (auto simp: backoffs_def new_Stream_def initial_def advance_def connect_def
      upt_conv_Cons numeral_nat)

subsection \<open>Order of the markers\<close>

lemma syncComplete_process_msg:
  "syncComplete (final (process_msg env m s)) =
     (if truthy (map_of m ''sync_id'') \<and> truthy (map_of m ''complete'')
      then map_of m ''sync_id'' else syncComplete s)"
  using process_fields_keeps [of s env m m]
  by (simp add: process_msg_def handleSubFinish_def same_but_caches_def)

lemma syncStarted_process_msg:
  "syncStarted (final (process_msg env m s)) =
     (if truthy (map_of m ''sync_id'') \<and> \<not> truthy (map_of m ''complete'')
      then map_of m ''sync_id'' else syncStarted s)"
  using process_fields_keeps [of s env m m]
  by (simp add: process_msg_def handleSubFinish_def same_but_caches_def)

lemma syncComplete_sendSpec: "syncComplete (sendSpec env g s) = syncComplete s"
  by (simp add: sendSpec_def Let_def)

lemma acts_snoc: "acts env (xs @ [x]) s = act env x (acts env xs s)"
  by (simp add: acts_def)

lemma acts_take_Suc:
  "j < length xs \<Longrightarrow> acts env (take (Suc j) xs) s = act env (xs ! j) (acts env (take j xs) s)"
  by (simp add: take_Suc_conv_app_nth acts_snoc)

text \<open>The reading of \<open>starts_come_first\<close> by positions in the sequence.\<close>

lemma starts_come_first_nth:
  assumes "starts_come_first v xs" and "j < length xs"
    and "xs ! j = Process m" and "complete_marker v m"
  shows "\<exists>i<j. \<exists>m'. xs ! i = Process m' \<and> start_marker v m'"
  using assms
proof (induction xs arbitrary: j)
  case Nil
  then show ?case by simp
next
  case (Cons x xs)
  show ?case
  proof (cases "\<exists>m0. x = Process m0 \<and> start_marker v m0")
    case True
    then obtain m0 where m0: "x = Process m0" "start_marker v m0" by blast
    have "j \<noteq> 0"
    proof
      assume "j = 0"
      with Cons.prems m0 have "start_marker v m" by simp
      with Cons.prems(4) show False
        by (simp add: start_marker_def complete_marker_def)
    qed
    with m0 show ?thesis by (intro exI [of _ 0]) simp
  next
    case False
    have tail: "starts_come_first v xs" and "\<not> (\<exists>m0. x = Process m0 \<and> complete_marker v m0)"
      using Cons.prems(1) False by (cases x; simp split: if_splits)+
    with Cons.prems(3,4) have "j \<noteq> 0" by (cases j) auto
    then obtain j' where j': "j = Suc j'" by (cases j) auto
    with Cons.prems have "j' < length xs" "xs ! j' = Process m" by simp_all
    from Cons.IH [OF tail this Cons.prems(4)]
    obtain i m' where "i < j'" "xs ! i = Process m'" "start_marker v m'" by blast
    with j' show ?thesis by (intro exI [of _ "Suc i"]) simp
  qed
qed

lemma syncComplete_from_marker:
  assumes "syncComplete s = None" and "syncComplete (acts env xs s) = Some v"
  shows "\<exists>j<length xs. \<exists>m. xs ! j = Process m \<and> complete_marker v m"
  using assms(2)
proof (induction xs arbitrary: v rule: rev_induct)
  case Nil
  with assms(1) show ?case by (simp add: acts_def)
next
  case (snoc x xs)
  show ?case
  proof (cases "\<exists>m. x = Process m \<and> complete_marker v m")
    case True
    then show ?thesis by (auto simp: nth_append)
  next
    case False
    have "syncComplete (acts env xs s) = Some v"
    proof (cases x)
      case (Send g)
      with snoc.prems show ?thesis
        by (simp add: acts_snoc syncComplete_sendSpec)
    next
      case (Process m)
      with False have "\<not> complete_marker v m" by simp
      with snoc.prems Process show ?thesis
        by (auto simp: acts_snoc syncComplete_process_msg complete_marker_def split: if_splits)
    qed
    from snoc.IH [OF this] obtain j m where "j < length xs" "xs ! j = Process m" "complete_marker v m"
      by blast
    then show ?thesis
      by (auto simp: nth_append intro!: exI [of _ j])
  qed
qed

text \<open>
  C3, as amended. Take any sequence of sends and processed messages (a round that throws
  among them or not) that starts where
  \<^verbatim>\<open>#syncComplete\<close> is unset and ends where it holds \<open>v\<close>. Then a completion marker
  carrying \<open>v\<close> was processed and recorded \<open>v\<close> there. If moreover the server put a
  start marker for \<open>v\<close> ahead of every completion marker for \<open>v\<close>, which the
  dispatcher does not check, then \<open>v\<close> was recorded in \<^verbatim>\<open>#syncStarted\<close> at an earlier
  point of the sequence than in \<^verbatim>\<open>#syncComplete\<close>.
\<close>

theorem complete_follows_start_if_markers_ordered:
  assumes "syncComplete s = None" and "syncComplete (acts env xs s) = Some v"
  shows "(\<exists>j<length xs. \<exists>m. xs ! j = Process m \<and> complete_marker v m \<and>
            syncComplete (acts env (take (Suc j) xs) s) = Some v) \<and>
         (starts_come_first v xs \<longrightarrow>
            (\<exists>i j. i < j \<and> j < length xs \<and>
               (\<exists>m'. xs ! i = Process m' \<and> start_marker v m') \<and>
               syncStarted (acts env (take (Suc i) xs) s) = Some v \<and>
               (\<exists>m. xs ! j = Process m \<and> complete_marker v m) \<and>
               syncComplete (acts env (take (Suc j) xs) s) = Some v))"
proof -
  from syncComplete_from_marker [OF assms]
  obtain j m where j: "j < length xs" "xs ! j = Process m" "complete_marker v m"
    by blast
  have done_j: "syncComplete (acts env (take (Suc j) xs) s) = Some v"
    using j by (simp add: acts_take_Suc syncComplete_process_msg complete_marker_def)
  have second: "\<exists>i j. i < j \<and> j < length xs \<and>
               (\<exists>m'. xs ! i = Process m' \<and> start_marker v m') \<and>
               syncStarted (acts env (take (Suc i) xs) s) = Some v \<and>
               (\<exists>m. xs ! j = Process m \<and> complete_marker v m) \<and>
               syncComplete (acts env (take (Suc j) xs) s) = Some v"
    if "starts_come_first v xs"
  proof -
    from starts_come_first_nth [OF that j]
    obtain i m' where i: "i < j" "xs ! i = Process m'" "start_marker v m'"
      by blast
    have "syncStarted (acts env (take (Suc i) xs) s) = Some v"
      using i j(1) by (simp add: acts_take_Suc syncStarted_process_msg start_marker_def)
    with i j done_j show ?thesis by blast
  qed
  from j done_j second show ?thesis by blast
qed

theorem complete_follows_start_if_markers_ordered_witness:
  "starts_come_first (CString ''1'')
     [Send [(''trials'', \<lparr>spec = (''trials'', ''a''), sub_id = Some ''L1''\<rparr>)],
      Process [(''sync_id'', CString ''1''), (''complete'', CBool False)],
      Process [(''sync_id'', CString ''1''), (''complete'', CBool True)]] \<and>
   syncComplete (acts trials_env
     [Send [(''trials'', \<lparr>spec = (''trials'', ''a''), sub_id = Some ''L1''\<rparr>)],
      Process [(''sync_id'', CString ''1''), (''complete'', CBool False)],
      Process [(''sync_id'', CString ''1''), (''complete'', CBool True)]]
     (new_Stream trials_env 0)) = Some (CString ''1'') \<and>
   (\<exists>i j. i < j \<and> j < 3 \<and>
      syncStarted (acts trials_env (take (Suc i)
        [Send [(''trials'', \<lparr>spec = (''trials'', ''a''), sub_id = Some ''L1''\<rparr>)],
         Process [(''sync_id'', CString ''1''), (''complete'', CBool False)],
         Process [(''sync_id'', CString ''1''), (''complete'', CBool True)]])
        (new_Stream trials_env 0)) = Some (CString ''1'') \<and>
      syncComplete (acts trials_env (take (Suc j)
        [Send [(''trials'', \<lparr>spec = (''trials'', ''a''), sub_id = Some ''L1''\<rparr>)],
         Process [(''sync_id'', CString ''1''), (''complete'', CBool False)],
         Process [(''sync_id'', CString ''1''), (''complete'', CBool True)]])
        (new_Stream trials_env 0)) = Some (CString ''1''))"
proof -
  let ?xs = "[Send [(''trials'', \<lparr>spec = (''trials'', ''a''), sub_id = Some ''L1''\<rparr>)],
      Process [(''sync_id'', CString ''1''), (''complete'', CBool False)],
      Process [(''sync_id'', CString ''1''), (''complete'', CBool True)]]"
  have h1: "syncComplete (new_Stream trials_env 0 :: (string \<times> string) state) = None"
    by (simp add: run_defs)
  have h2: "syncComplete (acts trials_env ?xs (new_Stream trials_env 0)) = Some (CString ''1'')"
    by (simp add: acts_def syncComplete_process_msg)
  have h3: "starts_come_first (CString ''1'') ?xs"
    by (simp add: start_marker_def complete_marker_def)
  from complete_follows_start_if_markers_ordered [OF h1 h2, THEN conjunct2, THEN mp, OF h3]
  obtain i j where ij: "i < j" "j < length ?xs"
    "syncStarted (acts trials_env (take (Suc i) ?xs) (new_Stream trials_env 0)) =
       Some (CString ''1'')"
    "syncComplete (acts trials_env (take (Suc j) ?xs) (new_Stream trials_env 0)) =
       Some (CString ''1'')"
    by blast
  from ij(2) have "j < 3" by simp
  show ?thesis
  proof (intro conjI)
    show "starts_come_first (CString ''1'') ?xs" by (rule h3)
    show "syncComplete (acts trials_env ?xs (new_Stream trials_env 0)) = Some (CString ''1'')"
      by (rule h2)
    show "\<exists>i j. i < j \<and> j < 3 \<and>
        syncStarted (acts trials_env (take (Suc i) ?xs) (new_Stream trials_env 0)) =
          Some (CString ''1'') \<and>
        syncComplete (acts trials_env (take (Suc j) ?xs) (new_Stream trials_env 0)) =
          Some (CString ''1'')"
      using ij(1,3,4) \<open>j < 3\<close> by blast
  qed
qed

text \<open>
  C3 as stated fails: with sync 1 sent and no marker seen, a completion marker for sync 1
  alone sets \<^verbatim>\<open>#syncComplete\<close> to 1, while \<^verbatim>\<open>#syncStarted\<close> was unset before and
  is unset after.
\<close>

theorem complete_without_start:
  "syncStarted sent_state = None \<and> syncComplete sent_state = None \<and>
   syncComplete (final (run trials_env
     [(3, SocketMessage [(''sync_id'', CString ''1''), (''complete'', CBool True)])]
     sent_state)) = Some (CString ''1'') \<and>
   syncStarted (final (run trials_env
     [(3, SocketMessage [(''sync_id'', CString ''1''), (''complete'', CBool True)])]
     sent_state)) = None"
  by (simp add: sent_state_eq run_defs)

subsection \<open>Reconnecting\<close>

lemma update_new: "k \<notin> fst ` set xs \<Longrightarrow> AList.update k v xs = xs @ [(k, v)]"
  by (induction xs) auto

lemma update_same:
  assumes "distinct (map fst xs)" and "(k, v) \<in> set xs"
  shows "AList.update k v xs = xs"
  using assms by (simp add: update_triv)

lemma spread_within:
  assumes "distinct (map fst a)" and "set b \<subseteq> set a"
  shows "spread a b = a"
  using assms(2)
proof (induction b)
  case Nil
  show ?case by (simp add: spread_def)
next
  case (Cons x b)
  obtain k v where x: "x = (k, v)" by (cases x)
  with Cons.prems have "AList.update k v a = a"
    using update_same [OF assms(1)] by simp
  with Cons x show ?case by (simp add: spread_def)
qed

lemma extend_truncate:
  "Subscription.extend (Subscription.truncate e) (SubscriptionWithCache.fields (keyCache e)) = e"
  by (cases e) (simp add: Subscription.extend_def Subscription.truncate_def
      SubscriptionWithCache.fields_def)

lemma spec_truncate: "spec (Subscription.truncate e) = spec e"
  by (cases e) (simp add: Subscription.truncate_def)

lemma sendSpec_fold_active:
  assumes "distinct (map fst cur)"
    and "\<forall>(k, e)\<in>set cur. spec_id env (spec e) = k"
    and "cur = xs @ ys"
  shows "fold (sendSpec_step env (Some cur)) (without_cache ys) (xs, payload_of env sid xs) =
           (cur, payload_of env sid cur)"
  using assms(3)
proof (induction ys arbitrary: xs)
  case Nil
  then show ?case by (simp add: without_cache_def)
next
  case (Cons x ys)
  obtain k e where x: "x = (k, e)" by (cases x)
  have mem: "(k, e) \<in> set cur" using Cons.prems x by simp
  have key: "spec_id env (spec e) = k" using assms(2) mem by auto
  have look: "map_of cur k = Some e" using assms(1) mem by simp
  have fresh: "k \<notin> fst ` set xs" using assms(1) Cons.prems x by auto
  have k1: "AList.update k v (map (\<lambda>(k, e). (k, known (keyCache e))) xs) =
        map (\<lambda>(k, e). (k, known (keyCache e))) xs @ [(k, v)]" for v
    using fresh by (intro update_new) force
  have k2: "AList.update k v
        (map (\<lambda>(k, e). (k, spec_toWire env (spec e), maxSeq (keyCache e))) xs) =
        map (\<lambda>(k, e). (k, spec_toWire env (spec e), maxSeq (keyCache e))) xs @ [(k, v)]" for v
    using fresh by (intro update_new) force
  have step: "sendSpec_step env (Some cur) (k, Subscription.truncate e) (xs, payload_of env sid xs) =
        (xs @ [(k, e)], payload_of env sid (xs @ [(k, e)]))"
    using update_new [OF fresh] k1 k2 key look
    by (simp add: sendSpec_step_def Let_def spec_truncate extend_truncate payload_of_def)
  have "cur = (xs @ [(k, e)]) @ ys" using Cons.prems x by simp
  from Cons.IH [OF this] step x show ?case by (simp add: without_cache_def)
qed

text \<open>
  What the reconnect path does send. When no sync is in flight, an active subscription
  exists and the markers say its catch-up is open (\<^verbatim>\<open>#syncComplete\<close> unset, or different
  from \<^verbatim>\<open>#syncStarted\<close>), \<^verbatim>\<open>#processSubscription\<close> sends the active subscription
  again under the next sync identifier, with the caches as they stand, and touches
  neither the active subscription nor the queue. The groups are keyed by the ids of
  their specs, each once, as \<^verbatim>\<open>subscribe\<close> and \<^verbatim>\<open>#sendSpec\<close> build them.
\<close>

lemma resend_of_active:
  assumes "syncSent s = None" and "curSub s = Some cur"
    and "\<not> truthy (syncComplete s) \<or> \<not> strict_eq (syncStarted s) (syncComplete s)"
    and "distinct (map fst cur)"
    and "\<forall>(k, e)\<in>set cur. spec_id env (spec e) = k"
  shows "processSubscription env s =
           Inr ((call_out (WsSend (payload_of env (toString (numSyncs s + 1)) cur))
                   (s\<lparr>numSyncs := numSyncs s + 1\<rparr>))
                \<lparr>syncSent := Some (toString (numSyncs s + 1))\<rparr>)"
proof -
  have "distinct (map fst (without_cache cur))"
    using assms(4) by (simp add: without_cache_def comp_def case_prod_unfold)
  then have whole: "spread (without_cache cur) (without_cache cur) = without_cache cur"
    by (rule spread_within) simp
  have "fold (sendSpec_step env (Some cur)) (without_cache cur)
          ([], payload_of env (toString (numSyncs s + 1)) []) =
        (cur, payload_of env (toString (numSyncs s + 1)) cur)"
    by (rule sendSpec_fold_active [OF assms(4,5)]) simp
  then have "fold (sendSpec_step env (Some cur)) (without_cache cur)
          ([], \<lparr>p_known = [], p_subscribe = [], p_sync_id = toString (numSyncs s + 1)\<rparr>) =
        (cur, payload_of env (toString (numSyncs s + 1)) cur)"
    by (simp add: payload_of_def)
  then have "sendSpec env (without_cache cur) s =
      (call_out (WsSend (payload_of env (toString (numSyncs s + 1)) cur))
              (s\<lparr>numSyncs := numSyncs s + 1\<rparr>))
           \<lparr>syncSent := Some (toString (numSyncs s + 1))\<rparr>"
    using assms(2) whole by (simp add: sendSpec_def Let_def call_out_def)
  then show ?thesis
    using assms(1,2,3) by (auto simp: processSubscription_def)
qed

text \<open>
  C4 fails on the source. Sync 1 completed, then another subscription was sent as sync 2
  and no marker for it arrived: \<^verbatim>\<open>#syncStarted\<close> and \<^verbatim>\<open>#syncComplete\<close> still hold 1,
  since \<^verbatim>\<open>#sendSpec\<close> does not clear them. The socket closes, the timer fires and the
  new socket opens: \<^verbatim>\<open>#processSubscription\<close> finds \<^verbatim>\<open>#syncComplete\<close> set and equal
  to \<^verbatim>\<open>#syncStarted\<close>, takes sync 2 for completed, finds the queue empty and sends
  nothing. The active subscription is not sent again.
\<close>

theorem reconnect_does_not_resend:
  "map p_sync_id (sends (calls unfinished_state)) = [''1'', ''2''] \<and>
   syncSent unfinished_state = Some ''2'' \<and>
   syncStarted unfinished_state = Some (CString ''1'') \<and>
   syncComplete unfinished_state = Some (CString ''1'') \<and>
   map (\<lambda>(k, e). (k, spec e)) (case curSub unfinished_state of None \<Rightarrow> [] | Some c \<Rightarrow> c) =
     [(''trials'', (''trials'', ''b''))] \<and>
   ws (final (run trials_env [(6, SocketClosed), (6, TimerFired), (7, SocketOpened)]
     unfinished_state)) = Some OPEN \<and>
   syncSent (final (run trials_env [(6, SocketClosed), (6, TimerFired), (7, SocketOpened)]
     unfinished_state)) = None \<and>
   sends (calls (final (run trials_env [(6, SocketClosed), (6, TimerFired), (7, SocketOpened)]
     unfinished_state))) = sends (calls unfinished_state)"
  by (simp add: unfinished_state_def loaded_state_eq run_defs)

end
